theory Spec2Isabelle
  imports Main
begin

section \<open>Data model\<close>

text \<open>
  A C string is modelled as the list of its bytes before the terminating NUL.  A pointer
  into a string whose contents are only read is the suffix that starts there; a pointer
  into a buffer that the code writes to is an index into the buffer.  Allocation
  (\<open>calloc\<close>, \<open>realloc\<close>, \<open>strndup\<close>) is assumed to succeed.
\<close>

type_synonym addr = nat

datatype xml_error =
    NullChunk          \<comment> \<open>\<open>xml_parse_chunk\<close> was given a null chunk\<close>
  | NoTagContext       \<comment> \<open>\<open>xml_parse_tag_opening\<close>: no pattern matched and \<open>st->tag\<close> is null\<close>
  | NoCurrentElement   \<comment> \<open>\<open>xml_key_append\<close>: \<open>st->current\<close> is null\<close>
  | AppendFailed       \<comment> \<open>\<open>xml_string_append\<close> returned null\<close>
  | MemoryFault        \<comment> \<open>a null pointer is dereferenced or a byte outside a buffer is read\<close>

text \<open>The tag pattern table of \<open>xml.c\<close>; the terminating all-zero entry is the end of the list.\<close>

record xml_tag_pattern =
  p_type :: nat
  p_open :: string
  p_open_len :: nat
  p_close :: string

definition TAG_ELEMENT_OPEN :: nat where "TAG_ELEMENT_OPEN = 1"
definition TAG_ELEMENT_CLOSE :: nat where "TAG_ELEMENT_CLOSE = 2"
definition TAG_PI :: nat where "TAG_PI = 3"
definition TAG_TYPE :: nat where "TAG_TYPE = 4"
definition TAG_COMMENT :: nat where "TAG_COMMENT = 5"
definition TAG_CDATA :: nat where "TAG_CDATA = 6"

definition pat_open :: xml_tag_pattern where
  "pat_open = \<lparr>p_type = 1, p_open = ''<'', p_open_len = 1, p_close = ''>''\<rparr>"
definition pat_close :: xml_tag_pattern where
  "pat_close = \<lparr>p_type = 2, p_open = ''</'', p_open_len = 2, p_close = ''>''\<rparr>"
definition pat_pi :: xml_tag_pattern where
  "pat_pi = \<lparr>p_type = 3, p_open = ''<?'', p_open_len = 2, p_close = ''?>''\<rparr>"
definition pat_type :: xml_tag_pattern where
  "pat_type = \<lparr>p_type = 4, p_open = ''<!'', p_open_len = 2, p_close = ''>''\<rparr>"
definition pat_comment :: xml_tag_pattern where
  "pat_comment = \<lparr>p_type = 5, p_open = ''<!--'', p_open_len = 4, p_close = ''-->''\<rparr>"
definition pat_cdata :: xml_tag_pattern where
  "pat_cdata = \<lparr>p_type = 6, p_open = ''<![CDATA['', p_open_len = 9, p_close = '']]>''\<rparr>"

definition xml_tag_patterns :: "xml_tag_pattern list" where
  "xml_tag_patterns = [pat_open, pat_close, pat_pi, pat_type, pat_comment, pat_cdata]"

text \<open>
  Modelled from the spec: \<open>xml.h\<close>, which declares \<open>struct xml_attribute\<close>,
  \<open>struct xml_element\<close> and \<open>struct xml_state\<close>, is not among the sources.  The fields
  are the ones \<open>xml.c\<close> reads and writes, as section 3 of the specification describes them.

  Elements live in a store, a list indexed by address; a new element gets the next free
  address.  The intrusive sibling list (\<open>first_child\<close>, \<open>last_child\<close>, \<open>next\<close>) of an
  element is kept as the list of its children's addresses in insertion order, so
  \<open>e->next\<close> is the successor of \<open>e\<close> in the child list of \<open>e->parent\<close>.  The attribute
  list (\<open>first_attribute\<close>, \<open>last_attribute\<close>, \<open>next\<close>) is a list in insertion order.

  The key of an element is its whole buffer, which holds NUL bytes once
  \<open>xml_parse_tag_name\<close> has cut it in place; the C string \<open>e->key\<close> is \<open>cstr\<close> of it.
  An attribute's key and value point into that buffer; the model stores the C strings
  they point to at the moment the attribute is filled in (later writes to the buffer land
  behind the terminators of both).
\<close>

record xml_attribute =
  a_key :: string
  a_value :: "string option"

record xml_element =
  e_key :: "string option"
  e_value :: "string option"
  e_parent :: "addr option"
  e_children :: "addr list"
  e_attributes :: "xml_attribute list"

datatype xml_parser = Content | TagOpening | TagBody

record xml_state =
  s_root :: "addr option"
  s_current :: "addr option"
  s_tag :: "xml_tag_pattern option"
  s_length :: nat
  s_cursor :: nat
  s_empty :: bool
  s_parser :: "xml_parser option"
  s_heap :: "xml_element list"

type_synonym 'a result = "(xml_error \<times> xml_state) + 'a"

definition NUL :: char where "NUL = CHR 0x00"

definition WHITESPACE :: string where
  "WHITESPACE = [CHR '' '', CHR 0x09, CHR 0x0D, CHR 0x0A]"

definition cstr :: "string \<Rightarrow> string" where
  "cstr b = takeWhile (\<lambda>c. c \<noteq> NUL) b"

definition cstr_at :: "string \<Rightarrow> nat \<Rightarrow> string" where
  "cstr_at b i = cstr (drop i b)"

text \<open>The byte at index \<open>i\<close> of a buffer whose terminator sits at index \<open>length b\<close>.\<close>

definition rdc :: "string \<Rightarrow> nat \<Rightarrow> char" where
  "rdc b i = (if i < length b then b ! i else NUL)"

definition strspn_at :: "string \<Rightarrow> nat \<Rightarrow> string \<Rightarrow> nat" where
  "strspn_at b i cs = length (takeWhile (\<lambda>c. c \<noteq> NUL \<and> c \<in> set cs) (drop i b))"

definition strcspn_at :: "string \<Rightarrow> nat \<Rightarrow> string \<Rightarrow> nat" where
  "strcspn_at b i cs = length (takeWhile (\<lambda>c. c \<noteq> NUL \<and> c \<notin> set cs) (drop i b))"

section \<open>String operations\<close>

text \<open>
  \<open>xml_quotedspn\<close>: \<open>s\<close> is the index in buffer \<open>b\<close> of the first byte after the
  opening quote.  The loop \<open>while ( *++s )\<close> advances before it reads, and the branch for a
  backslash advances once more.  Reading behind the terminator of \<open>b\<close> is a fault.
\<close>

function xml_quotedspn_loop :: "string \<Rightarrow> nat \<Rightarrow> nat \<Rightarrow> char \<Rightarrow> xml_error + nat" where
  "xml_quotedspn_loop b first s q =
     (let s1 = s + 1 in
      if s1 > length b then Inl MemoryFault
      else if rdc b s1 = NUL then Inr 0
      else if rdc b s1 = CHR 0x5C then xml_quotedspn_loop b first (s1 + 1) q
      else if rdc b s1 = q then Inr (s1 - first)
      else xml_quotedspn_loop b first s1 q)"
  by pat_completeness auto
termination
  by (relation "measure (\<lambda>(b, first, s, q). length b - s)") (auto simp: rdc_def split: if_splits)

definition xml_quotedspn :: "string \<Rightarrow> nat \<Rightarrow> char \<Rightarrow> xml_error + nat" where
  "xml_quotedspn b s q = xml_quotedspn_loop b s s q"

text \<open>
  \<open>xml_string_append\<close> on \<open>*dest\<close> and \<open>*dest_len\<close>.  The bytes are written at offset
  \<open>*dest_len\<close>; when that offset lies behind the terminator of \<open>*dest\<close> the C string is
  unchanged.  The result is null exactly when \<open>*dest\<close> is null afterwards.
\<close>

definition xml_string_append :: "string option \<Rightarrow> nat \<Rightarrow> string \<Rightarrow> string option \<times> nat" where
  "xml_string_append dest dest_len src =
     (if length src < 1 then (dest, dest_len)
      else case dest of
        None \<Rightarrow> (Some src, dest_len + length src)
      | Some s \<Rightarrow> (Some (if dest_len \<le> length s then take dest_len s @ src else s),
                   dest_len + length src))"

section \<open>Creating elements\<close>

definition new_element :: "addr option \<Rightarrow> xml_element" where
  "new_element p = \<lparr>e_key = None, e_value = None, e_parent = p, e_children = [],
     e_attributes = []\<rparr>"

text \<open>
  \<open>xml_element_create\<close> with \<open>xml_element_add\<close>: the new element gets address
  \<open>length (s_heap st)\<close>; with a parent it is appended to the parent's children.  The
  address of the new element is returned with the state.  A parent address outside the
  store is a fault.
\<close>

definition xml_element_create :: "xml_state \<Rightarrow> addr option \<Rightarrow> (xml_state \<times> addr) result" where
  "xml_element_create st parent =
     (let e = length (s_heap st) in
      case parent of
        None \<Rightarrow> Inr (st\<lparr>s_heap := s_heap st @ [new_element None]\<rparr>, e)
      | Some p \<Rightarrow>
          if p < length (s_heap st) then
            Inr (st\<lparr>s_heap := (s_heap st)[p := (s_heap st ! p)
                        \<lparr>e_children := e_children (s_heap st ! p) @ [e]\<rparr>]
                      @ [new_element (Some p)]\<rparr>, e)
          else Inl (MemoryFault, st))"

section \<open>Appending key and value\<close>

definition xml_value_append :: "xml_state \<Rightarrow> string \<Rightarrow> xml_state result" where
  "xml_value_append st d =
     (case (if s_length st = 0
            then (case xml_element_create st (s_current st) of
                    Inl x \<Rightarrow> Inl x
                  | Inr (st1, e) \<Rightarrow> Inr (st1\<lparr>s_current := Some e\<rparr>))
            else Inr st) of
        Inl x \<Rightarrow> Inl x
      | Inr st1 \<Rightarrow>
         (case s_current st1 of
            None \<Rightarrow> Inl (MemoryFault, st1)
          | Some c \<Rightarrow>
              if c < length (s_heap st1) then
                (let el = s_heap st1 ! c;
                     (v, l) = xml_string_append (e_value el) (s_length st1) d;
                     st2 = st1\<lparr>s_heap := (s_heap st1)[c := el\<lparr>e_value := v\<rparr>], s_length := l\<rparr>
                 in if v = None then Inl (AppendFailed, st2) else Inr st2)
              else Inl (MemoryFault, st1)))"

text \<open>The append of \<open>src\<close> to \<open>st->current->key\<close> with \<open>st->length\<close> as its length.\<close>

definition key_string_append :: "xml_state \<Rightarrow> string \<Rightarrow> xml_state result" where
  "key_string_append st src =
     (case s_current st of
        None \<Rightarrow> Inl (MemoryFault, st)
      | Some c \<Rightarrow>
          if c < length (s_heap st) then
            (let el = s_heap st ! c;
                 (k, l) = xml_string_append (e_key el) (s_length st) src;
                 st1 = st\<lparr>s_heap := (s_heap st)[c := el\<lparr>e_key := k\<rparr>], s_length := l\<rparr>
             in if k = None then Inl (AppendFailed, st1) else Inr st1)
          else Inl (MemoryFault, st))"

definition xml_key_append :: "xml_state \<Rightarrow> string \<Rightarrow> xml_state result" where
  "xml_key_append st d =
     (case s_current st of
        None \<Rightarrow> Inl (NoCurrentElement, st)
      | Some c \<Rightarrow>
         (case s_tag st of
            None \<Rightarrow> Inl (MemoryFault, st)
          | Some t \<Rightarrow>
              if p_type t = TAG_ELEMENT_CLOSE then Inr st
              else
                (case (if s_length st = 0 \<and> p_open_len t > 1
                       then key_string_append st (take (p_open_len t - 1) (drop 1 (p_open t)))
                       else Inr st) of
                   Inl x \<Rightarrow> Inl x
                 | Inr st1 \<Rightarrow> key_string_append st1 d)))"

section \<open>Parsing attributes\<close>

text \<open>
  \<open>xml_parse_attributes\<close> on the key buffer \<open>b\<close> of the element, \<open>from\<close> an index into
  it.  The result is the buffer with the terminators written into it and the attributes,
  in the order in which they are created.  After an unquoted value that ends at a NUL,
  \<open>q\<close> is 0 and \<open>from\<close> steps over that NUL; the next test of the loop reads there.
\<close>

function xml_parse_attributes_loop ::
  "string \<Rightarrow> nat \<Rightarrow> xml_attribute list \<Rightarrow> xml_error + (string \<times> xml_attribute list)" where
  "xml_parse_attributes_loop b from acc =
     (if from > length b then Inl MemoryFault
      else if rdc b from = NUL then Inr (b, acc)
      else
        let f1 = from + strspn_at b from WHITESPACE;
            p = strcspn_at b f1 (CHR ''='' # WHITESPACE)
        in if p < 1 then Inr (b, acc)
           else
             let key = f1;
                 key_len = p;
                 f2 = f1 + p;
                 f3 = f2 + strspn_at b f2 WHITESPACE
             in if rdc b f3 = CHR ''='' then
                  (let f4 = f3 + 1 + strspn_at b (f3 + 1) WHITESPACE in
                   if rdc b f4 = NUL then Inr (b, acc)
                   else
                     let quoted = (rdc b f4 = CHR 0x27 \<or> rdc b f4 = CHR 0x22);
                         q = (if quoted then rdc b f4 else NUL);
                         v = (if quoted then f4 + 1 else f4)
                     in case (if quoted then xml_quotedspn b v q
                              else Inr (strcspn_at b v WHITESPACE)) of
                          Inl x \<Rightarrow> Inl x
                        | Inr vl \<Rightarrow>
                            let f5 = v + vl;
                                f6 = (if rdc b f5 = q then f5 + 1 else f5);
                                b1 = b[key + key_len := NUL];
                                ak = cstr_at b1 key;
                                b2 = b1[v + vl := NUL];
                                av = cstr_at b2 v
                            in xml_parse_attributes_loop b2 f6
                                 (acc @ [\<lparr>a_key = ak, a_value = Some av\<rparr>]))
                else
                  (let b1 = b[key + key_len := NUL];
                       ak = cstr_at b1 key
                   in xml_parse_attributes_loop b1 f3
                        (acc @ [\<lparr>a_key = ak, a_value = None\<rparr>])))"
  by pat_completeness auto
termination
  by (relation "measure (\<lambda>(b, from, acc). length b + 1 - from)")
     (auto simp: Let_def split: if_splits)

definition xml_parse_attributes ::
  "string \<Rightarrow> nat \<Rightarrow> xml_error + (string \<times> xml_attribute list)" where
  "xml_parse_attributes b from = xml_parse_attributes_loop b from []"

section \<open>Parsing elements\<close>

definition xml_close_element :: "xml_state \<Rightarrow> xml_state result" where
  "xml_close_element st =
     (case s_current st of
        None \<Rightarrow> Inl (MemoryFault, st)
      | Some c \<Rightarrow>
          if c < length (s_heap st) then Inr (st\<lparr>s_current := e_parent (s_heap st ! c)\<rparr>)
          else Inl (MemoryFault, st))"

definition xml_close_tag :: "xml_state \<Rightarrow> xml_state" where
  "xml_close_tag st =
     st\<lparr>s_tag := None, s_length := 0, s_cursor := 0, s_empty := False,
        s_parser := Some Content\<rparr>"

text \<open>
  The loop of \<open>xml_check_empty\<close> on the key buffer: \<open>n\<close> is one more than the index
  \<open>p\<close> looks at, so \<open>n = 0\<close> is \<open>p < st->current->key\<close>.  The result is the buffer and
  whether the marker was found.
\<close>

fun xml_check_empty_loop :: "string \<Rightarrow> nat \<Rightarrow> string \<times> bool" where
  "xml_check_empty_loop b 0 = (b, False)"
| "xml_check_empty_loop b (Suc p) =
     (if rdc b p \<in> set WHITESPACE then xml_check_empty_loop b p
      else if rdc b p = CHR ''/'' then (b[p := NUL], True)
      else (b, False))"

definition xml_check_empty :: "string \<Rightarrow> string \<times> bool" where
  "xml_check_empty b = xml_check_empty_loop b (length (cstr b))"

text \<open>
  \<open>xml_parse_tag_name\<close>; \<open>st->empty\<close> is set when \<open>xml_check_empty\<close> finds the marker and
  is left as it is otherwise.  A null \<open>st->current\<close> or a null key is a fault.
\<close>

definition xml_parse_tag_name :: "xml_state \<Rightarrow> xml_state result" where
  "xml_parse_tag_name st =
     (case s_current st of
        None \<Rightarrow> Inl (MemoryFault, st)
      | Some c \<Rightarrow>
          if c < length (s_heap st) then
            (let el = s_heap st ! c in
             case e_key el of
               None \<Rightarrow> Inl (MemoryFault, st)
             | Some b \<Rightarrow>
                 let (b1, em) = xml_check_empty b;
                     st1 = st\<lparr>s_empty := (em \<or> s_empty st)\<rparr>;
                     p = strcspn_at b1 0 WHITESPACE
                 in if rdc b1 p = NUL
                    then Inr (st1\<lparr>s_heap := (s_heap st)[c := el\<lparr>e_key := Some b1\<rparr>]\<rparr>)
                    else
                      let b2 = b1[p := NUL];
                          p2 = p + 1 + strspn_at b2 (p + 1) WHITESPACE
                      in if rdc b2 p2 \<noteq> NUL then
                           (case xml_parse_attributes b2 p2 of
                              Inl x \<Rightarrow>
                                Inl (x, st1\<lparr>s_heap := (s_heap st)[c := el\<lparr>e_key := Some b2\<rparr>]\<rparr>)
                            | Inr (b3, as) \<Rightarrow>
                                Inr (st1\<lparr>s_heap := (s_heap st)[c := el\<lparr>e_key := Some b3,
                                       e_attributes := e_attributes el @ as\<rparr>]\<rparr>))
                         else Inr (st1\<lparr>s_heap := (s_heap st)[c := el\<lparr>e_key := Some b2\<rparr>]\<rparr>))
          else Inl (MemoryFault, st))"

text \<open>
  Lines 502 to 512 of \<open>xml_parse_tag_body\<close>: the key of the tag \<open>t\<close> is complete.
\<close>

definition xml_tag_finish :: "xml_state \<Rightarrow> xml_tag_pattern \<Rightarrow> xml_state result" where
  "xml_tag_finish st t =
     (case (if p_type t = TAG_ELEMENT_OPEN then xml_parse_tag_name st else Inr st) of
        Inl x \<Rightarrow> Inl x
      | Inr st2 \<Rightarrow>
         (case (if p_type t \<noteq> TAG_ELEMENT_OPEN \<or> s_empty st2
                then xml_close_element st2 else Inr st2) of
            Inl x \<Rightarrow> Inl x
          | Inr st3 \<Rightarrow> Inr (xml_close_tag st3)))"

text \<open>
  Lines 490 to 513: the terminating pattern of \<open>t\<close> is complete and \<open>st->cursor\<close> is its
  length; the bytes of the pattern before its last are appended to the key.
\<close>

definition xml_tag_complete :: "xml_state \<Rightarrow> xml_tag_pattern \<Rightarrow> xml_state result" where
  "xml_tag_complete st t =
     (case (if s_cursor st > 1
            then key_string_append st (take (s_cursor st - 1) (p_close t))
            else Inr st) of
        Inl x \<Rightarrow> Inl x
      | Inr st1 \<Rightarrow> xml_tag_finish st1 t)"

text \<open>
  Lines 481 to 514: \<open>m\<close> is set; \<open>pre\<close> is the data before \<open>m\<close> and \<open>rest\<close> the data
  after it.  The result says whether the tag was completed (the \<open>break\<close> of line 513).
\<close>

definition xml_tag_match ::
  "xml_state \<Rightarrow> xml_tag_pattern \<Rightarrow> string \<Rightarrow> (xml_state \<times> bool) result" where
  "xml_tag_match st t pre =
     (case (if s_cursor st = 0 then xml_key_append st pre else Inr st) of
        Inl x \<Rightarrow> Inl x
      | Inr st1 \<Rightarrow>
          let st2 = st1\<lparr>s_cursor := s_cursor st1 + 1\<rparr> in
          if s_cursor st2 > length (p_close t) then Inl (MemoryFault, st2)
          else if rdc (p_close t) (s_cursor st2) = NUL then
            (case xml_tag_complete st2 t of
               Inl x \<Rightarrow> Inl x
             | Inr st3 \<Rightarrow> Inr (st3, True))
          else Inr (st2, False))"

text \<open>
  \<open>xml_parse_tag_body\<close>.  With a cursor inside the terminating pattern and a byte that does
  not continue it, the matched part of the pattern is appended to the key, the cursor is
  reset and the same byte is looked at again with the cursor at 0 (the second round of the
  inner loop, or the \<open>continue\<close> of line 477).  A null \<open>st->tag\<close>, and a cursor behind the
  terminator of the pattern, are faults.
\<close>

function xml_parse_tag_body :: "xml_state \<Rightarrow> string \<Rightarrow> (xml_state \<times> string) result" where
  "xml_parse_tag_body st d =
     (if d = [] then Inr (st, [])
      else case s_tag st of
        None \<Rightarrow> Inl (MemoryFault, st)
      | Some t \<Rightarrow>
          if s_cursor st = 0 then
            (let n = length (takeWhile (\<lambda>c. c \<noteq> rdc (p_close t) 0) d) in
             if n < length d then
               (case xml_tag_match st t (take n d) of
                  Inl x \<Rightarrow> Inl x
                | Inr (st1, done) \<Rightarrow>
                    if done then Inr (st1, drop (n + 1) d)
                    else xml_parse_tag_body st1 (drop (n + 1) d))
             else
               (case xml_key_append st d of
                  Inl x \<Rightarrow> Inl x
                | Inr st1 \<Rightarrow> Inr (st1, [])))
          else if s_cursor st > length (p_close t) then Inl (MemoryFault, st)
          else if rdc (p_close t) (s_cursor st) = hd d then
            (case xml_tag_match st t [] of
               Inl x \<Rightarrow> Inl x
             | Inr (st1, done) \<Rightarrow>
                 if done then Inr (st1, tl d)
                 else xml_parse_tag_body st1 (tl d))
          else
            (case xml_key_append st (take (s_cursor st) (p_close t)) of
               Inl x \<Rightarrow> Inl x
             | Inr st1 \<Rightarrow> xml_parse_tag_body (st1\<lparr>s_cursor := 0\<rparr>) d))"
  by pat_completeness auto
termination
  by (relation "measure (\<lambda>(st, d). 2 * length d + (if s_cursor st = 0 then 0 else 1))")
     (auto simp: neq_Nil_conv)

declare xml_parse_tag_body.simps [simp del]

text \<open>
  The scan of the pattern table in \<open>xml_parse_tag_opening\<close> (lines 546 to 551): the first
  pattern whose opening string continues with byte \<open>c\<close> at the cursor.
\<close>

fun find_pattern :: "nat \<Rightarrow> char \<Rightarrow> xml_tag_pattern list \<Rightarrow> xml_tag_pattern option" where
  "find_pattern cur c [] = None"
| "find_pattern cur c (p # ps) =
     (if p_open_len p > cur \<and> rdc (p_open p) cur = c then Some p
      else find_pattern cur c ps)"

text \<open>
  Lines 567 to 586: no pattern continues with the byte at \<open>d\<close>.  The pointer \<open>p\<close> of
  the scan is not set back to the start of the table when the cursor is reset (line 562),
  so the second round of the loop of line 545 finds nothing and only the reset remains.
\<close>

definition xml_tag_opened :: "xml_state \<Rightarrow> xml_state result" where
  "xml_tag_opened st =
     (case s_tag st of
        None \<Rightarrow> Inl (NoTagContext, st\<lparr>s_cursor := 0\<rparr>)
      | Some t \<Rightarrow>
         (case (if s_length st > 0 then xml_close_element (st\<lparr>s_cursor := 0\<rparr>)
                else Inr (st\<lparr>s_cursor := 0\<rparr>)) of
            Inl x \<Rightarrow> Inl x
          | Inr st1 \<Rightarrow>
              let st2 = st1\<lparr>s_length := 0, s_cursor := 0, s_parser := Some TagBody\<rparr> in
              if p_type t \<noteq> TAG_ELEMENT_CLOSE then
                (case xml_element_create st2 (s_current st2) of
                   Inl x \<Rightarrow> Inl x
                 | Inr (st3, e) \<Rightarrow> Inr (st3\<lparr>s_current := Some e\<rparr>))
              else Inr st2))"

fun xml_parse_tag_opening :: "xml_state \<Rightarrow> string \<Rightarrow> (xml_state \<times> string) result" where
  "xml_parse_tag_opening st [] = Inr (st, [])"
| "xml_parse_tag_opening st (c # d) =
     (case find_pattern (s_cursor st) c xml_tag_patterns of
        Some p \<Rightarrow> xml_parse_tag_opening (st\<lparr>s_cursor := s_cursor st + 1, s_tag := Some p\<rparr>) d
      | None \<Rightarrow>
         (case xml_tag_opened st of
            Inl x \<Rightarrow> Inl x
          | Inr st1 \<Rightarrow> Inr (st1, c # d)))"

definition xml_parse_content :: "xml_state \<Rightarrow> string \<Rightarrow> (xml_state \<times> string) result" where
  "xml_parse_content st d =
     (let n = length (takeWhile (\<lambda>c. c \<noteq> CHR ''<'') d) in
      case (if n > 0 then xml_value_append st (take n d) else Inr st) of
        Inl x \<Rightarrow> Inl x
      | Inr st1 \<Rightarrow>
          Inr (if n < length d then st1\<lparr>s_parser := Some TagOpening\<rparr> else st1, drop n d))"

text \<open>The call \<open>st->parser(st, d)\<close>; calling a null function pointer is a fault.\<close>

definition xml_call_parser :: "xml_state \<Rightarrow> string \<Rightarrow> (xml_state \<times> string) result" where
  "xml_call_parser st d =
     (case s_parser st of
        None \<Rightarrow> Inl (MemoryFault, st)
      | Some Content \<Rightarrow> xml_parse_content st d
      | Some TagOpening \<Rightarrow> xml_parse_tag_opening st d
      | Some TagBody \<Rightarrow> xml_parse_tag_body st d)"

definition parser_rank :: "xml_state \<Rightarrow> nat" where
  "parser_rank st =
     (case s_parser st of
        Some Content \<Rightarrow> 2 | Some TagOpening \<Rightarrow> 1 | _ \<Rightarrow> 0)"

text \<open>The loop of \<open>xml_parse_chunk\<close> (lines 635 to 639).\<close>

function xml_parse_loop :: "xml_state \<Rightarrow> string \<Rightarrow> xml_state result" where
  "xml_parse_loop st d =
     (if d = [] then Inr st
      else case xml_call_parser st d of
        Inl x \<Rightarrow> Inl x
      | Inr (st1, d1) \<Rightarrow> xml_parse_loop st1 d1)"
  by pat_completeness auto
termination
proof (relation "measure (\<lambda>(st, d). 3 * length d + parser_rank st)", goal_cases)
  case 1
  show ?case by simp
next
  case (2 st d x st1 d1)
  have body: "length d1 \<le> length d \<and> (d \<noteq> [] \<longrightarrow> length d1 < length d)"
    if "xml_parse_tag_body st d = Inr (st1, d1)" for st d st1 d1
    using that
  proof (induction st d arbitrary: st1 d1 rule: xml_parse_tag_body.induct)
    case (1 st d)
    show ?case
    proof (cases "d = []")
      case True
      with "1.prems" show ?thesis by (simp add: xml_parse_tag_body.simps)
    next
      case dne: False
      then obtain t where t: "s_tag st = Some t"
        using "1.prems" by (cases "s_tag st") (simp_all add: xml_parse_tag_body.simps)
      show ?thesis
      proof (cases "s_cursor st = 0")
        case c0: True
        define n where "n = length (takeWhile (\<lambda>c. c \<noteq> rdc (p_close t) 0) d)"
        show ?thesis
        proof (cases "n < length d")
          case nl: True
          then obtain st2 dn where m: "xml_tag_match st t (take n d) = Inr (st2, dn)"
            using "1.prems" dne t c0 n_def
            by (cases "xml_tag_match st t (take n d)") (auto simp: xml_parse_tag_body.simps[of st d] Let_def)
          show ?thesis
          proof (cases dn)
            case True
            with "1.prems" dne t c0 n_def nl m have "d1 = drop (n + 1) d"
              by (simp add: xml_parse_tag_body.simps[of st d] Let_def)
            with nl show ?thesis by simp
          next
            case False
            with "1.prems" dne t c0 n_def nl m have r: "xml_parse_tag_body st2 (drop (n + 1) d) = Inr (st1, d1)"
              by (simp add: xml_parse_tag_body.simps[of st d] Let_def)
            have "length d1 \<le> length (drop (n + 1) d)"
              using "1.IH"(1)[OF dne t c0 n_def nl m refl False r] by simp
            with nl show ?thesis by auto
          qed
        next
          case False
          with "1.prems" dne t c0 n_def have "d1 = []"
            by (auto simp: xml_parse_tag_body.simps[of st d] Let_def split: sum.splits)
          with dne show ?thesis by simp
        qed
      next
        case cn: False
        have cl: "\<not> s_cursor st > length (p_close t)"
          using "1.prems" dne t cn by (auto simp: xml_parse_tag_body.simps[of st d])
        show ?thesis
        proof (cases "rdc (p_close t) (s_cursor st) = hd d")
          case True
          then obtain st2 dn where m: "xml_tag_match st t [] = Inr (st2, dn)"
            using "1.prems" dne t cn cl
            by (cases "xml_tag_match st t []") (auto simp: xml_parse_tag_body.simps[of st d])
          show ?thesis
          proof (cases dn)
            case True
            with "1.prems" dne t cn cl m \<open>rdc (p_close t) (s_cursor st) = hd d\<close> have "d1 = tl d"
              by (simp add: xml_parse_tag_body.simps[of st d])
            with dne show ?thesis by (cases d) simp_all
          next
            case False
            with "1.prems" dne t cn cl m True have r: "xml_parse_tag_body st2 (tl d) = Inr (st1, d1)"
              by (simp add: xml_parse_tag_body.simps[of st d])
            have "length d1 \<le> length (tl d)"
              using "1.IH"(2)[OF dne t cn cl True m refl False r] by simp
            with dne show ?thesis by (cases d) auto
          qed
        next
          case False
          then obtain st2 where k: "xml_key_append st (take (s_cursor st) (p_close t)) = Inr st2"
            using "1.prems" dne t cn cl
            by (cases "xml_key_append st (take (s_cursor st) (p_close t))") (auto simp: xml_parse_tag_body.simps[of st d])
          with "1.prems" dne t cn cl False have r: "xml_parse_tag_body (st2\<lparr>s_cursor := 0\<rparr>) d = Inr (st1, d1)"
            by (simp add: xml_parse_tag_body.simps[of st d])
          show ?thesis
            using "1.IH"(3)[OF dne t cn cl False k r] .
        qed
      qed
    qed
  qed
  have h_opened: "s_parser st1 = Some TagBody" if "xml_tag_opened st = Inr st1" for st st1
    using that
    by (auto simp: xml_tag_opened_def xml_close_element_def xml_element_create_def Let_def
             split: option.splits if_splits sum.splits prod.splits)
  have h_opening: "length d1 \<le> length d \<and> (length d1 = length d \<and> d \<noteq> [] \<longrightarrow> s_parser st1 = Some TagBody)"
    if "xml_parse_tag_opening st d = Inr (st1, d1)" for st d st1 d1
    using that
  proof (induction d arbitrary: st)
    case Nil
    then show ?case by simp
  next
    case (Cons c d)
    show ?case
    proof (cases "find_pattern (s_cursor st) c xml_tag_patterns")
      case None
      with Cons.prems show ?thesis
        by (auto split: sum.splits dest: h_opened)
    next
      case (Some p)
      with Cons.prems Cons.IH[of "st\<lparr>s_cursor := s_cursor st + 1, s_tag := Some p\<rparr>"]
      show ?thesis by auto
    qed
  qed
  have content: "length d1 \<le> length d \<and> (length d1 = length d \<and> d \<noteq> [] \<longrightarrow> s_parser st1 = Some TagOpening)"
    if "xml_parse_content st d = Inr (st1, d1)" for st d st1 d1
    using that
    by (cases "takeWhile (\<lambda>c. c \<noteq> CHR ''<'') d = []")
       (auto simp: xml_parse_content_def Let_def split: sum.splits if_splits)
  from 2 have call: "xml_call_parser st d = Inr (st1, d1)" and dne: "d \<noteq> []" by simp_all
  show ?case
  proof (cases "s_parser st")
    case None
    with call show ?thesis by (simp add: xml_call_parser_def)
  next
    case (Some m)
    show ?thesis
    proof (cases m)
      case Content
      with Some call have "xml_parse_content st d = Inr (st1, d1)" by (simp add: xml_call_parser_def)
      from content[OF this] dne Some Content show ?thesis
        by (cases "length d1 = length d") (auto simp: parser_rank_def split: option.splits xml_parser.splits)
    next
      case TagOpening
      with Some call have "xml_parse_tag_opening st d = Inr (st1, d1)" by (simp add: xml_call_parser_def)
      from h_opening[OF this] dne Some TagOpening show ?thesis
        by (cases "length d1 = length d") (auto simp: parser_rank_def split: option.splits xml_parser.splits)
    next
      case TagBody
      with Some call have "xml_parse_tag_body st d = Inr (st1, d1)" by (simp add: xml_call_parser_def)
      from body[OF this] dne Some TagBody show ?thesis
        by (auto simp: parser_rank_def split: option.splits xml_parser.splits)
    qed
  qed
qed

declare xml_parse_loop.simps [simp del]

text \<open>
  \<open>xml_parse_chunk\<close>: the result \<open>Inr\<close> is the return value 0 with the state the call
  leaves, \<open>Inl\<close> is the return value -1 (or a fault) with the state at that point.
\<close>

definition xml_parse_chunk :: "xml_state \<Rightarrow> string option \<Rightarrow> xml_state result" where
  "xml_parse_chunk st d =
     (case d of
        None \<Rightarrow> Inl (NullChunk, st)
      | Some ds \<Rightarrow>
         (case (if s_root st = None
                then (case xml_element_create st None of
                        Inl x \<Rightarrow> Inl x
                      | Inr (st1, e) \<Rightarrow> Inr (st1\<lparr>s_current := Some e, s_root := Some e\<rparr>))
                else Inr st) of
            Inl x \<Rightarrow> Inl x
          | Inr st1 \<Rightarrow>
              xml_parse_loop (if s_parser st1 = None then xml_close_tag st1 else st1) ds))"

text \<open>The state after \<open>memset(&st, 0, sizeof(st))\<close>, with an empty store.\<close>

definition xml_state_zero :: xml_state where
  "xml_state_zero = \<lparr>s_root = None, s_current = None, s_tag = None, s_length = 0,
     s_cursor = 0, s_empty = False, s_parser = None, s_heap = []\<rparr>"

text \<open>\<open>xml_parse\<close>: the store of the tree and the address of its root, or nothing.\<close>

definition xml_parse :: "string option \<Rightarrow> (xml_element list \<times> addr) option" where
  "xml_parse d =
     (case xml_parse_chunk xml_state_zero d of
        Inl x \<Rightarrow> None
      | Inr st \<Rightarrow> (case s_root st of None \<Rightarrow> None | Some r \<Rightarrow> Some (s_heap st, r)))"

section \<open>Element location\<close>

text \<open>
  The comparisons of the C library on C strings without NUL bytes, in the "C" locale:
  \<open>strncmp(a, b, n) == 0\<close>, \<open>strncasecmp(a, b, n) == 0\<close> and \<open>strcasecmp(a, b) == 0\<close>.
\<close>

definition c_tolower :: "char \<Rightarrow> char" where
  "c_tolower c =
     (case map_of (zip ''ABCDEFGHIJKLMNOPQRSTUVWXYZ'' ''abcdefghijklmnopqrstuvwxyz'') c of
        None \<Rightarrow> c
      | Some l \<Rightarrow> l)"

definition strncmp_eq :: "string \<Rightarrow> string \<Rightarrow> nat \<Rightarrow> bool" where
  "strncmp_eq a b n = (take n a = take n b)"

definition strncasecmp_eq :: "string \<Rightarrow> string \<Rightarrow> nat \<Rightarrow> bool" where
  "strncasecmp_eq a b n = (map c_tolower (take n a) = map c_tolower (take n b))"

definition strcasecmp_eq :: "string \<Rightarrow> string \<Rightarrow> bool" where
  "strcasecmp_eq a b = (map c_tolower a = map c_tolower b)"

text \<open>
  \<open>struct xml_query_string\<close> and \<open>struct xml_path_segment\<close>: \<open>q_key\<close> and \<open>q_value\<close>
  point into the path, so they are the suffixes of the path that start there; \<open>query\<close>
  is the linked list, its head first.
\<close>

record xml_query_string =
  q_key :: string
  q_key_len :: nat
  q_value :: "string option"
  q_value_len :: nat

record xml_path_segment =
  tag_len :: nat
  query :: "xml_query_string list"

definition seg_zero :: xml_path_segment where
  "seg_zero = \<lparr>tag_len = 0, query = []\<rparr>"

text \<open>
  \<open>xml_attribute_match\<close>: the inner loop over the attributes for one query string, then
  the outer loop over the query strings.  \<open>strlen(a->value)\<close> on an attribute without a
  value reads through a null pointer.
\<close>

fun xml_attribute_match_one :: "xml_query_string \<Rightarrow> xml_attribute list \<Rightarrow> xml_error + bool" where
  "xml_attribute_match_one q [] = Inr False"
| "xml_attribute_match_one q (a # as) =
     (if length (a_key a) = q_key_len q \<and> strncmp_eq (a_key a) (q_key q) (q_key_len q) then
        (case q_value q of
           None \<Rightarrow> Inr True
         | Some qv \<Rightarrow>
            (case a_value a of
               None \<Rightarrow> Inl MemoryFault
             | Some av \<Rightarrow>
                 if length av = q_value_len q \<and> strncmp_eq av qv (q_value_len q) then Inr True
                 else xml_attribute_match_one q as))
      else xml_attribute_match_one q as)"

fun xml_attribute_match_all :: "xml_query_string list \<Rightarrow> xml_attribute list \<Rightarrow> xml_error + bool" where
  "xml_attribute_match_all [] as = Inr True"
| "xml_attribute_match_all (q # qs) as =
     (case xml_attribute_match_one q as of
        Inl x \<Rightarrow> Inl x
      | Inr False \<Rightarrow> Inr False
      | Inr True \<Rightarrow> xml_attribute_match_all qs as)"

definition xml_attribute_match ::
  "xml_element list \<Rightarrow> addr \<Rightarrow> xml_path_segment \<Rightarrow> xml_error + bool" where
  "xml_attribute_match h e seg =
     (if query seg = [] then Inr True
      else if e < length h then xml_attribute_match_all (query seg) (e_attributes (h ! e))
      else Inl MemoryFault)"

definition strchr_idx :: "string \<Rightarrow> char \<Rightarrow> nat option" where
  "strchr_idx s c =
     (let n = length (takeWhile (\<lambda>x. x \<noteq> c) s) in if n < length s then Some n else None)"

text \<open>
  The \<open>do ... while\<close> loop of \<open>xml_first_path_segment\<close>: \<open>sep\<close> and \<open>stop\<close> are indices
  into \<open>path\<close>; each round puts a new query string in front of the list.
\<close>

function xml_query_loop ::
  "string \<Rightarrow> nat \<Rightarrow> nat \<Rightarrow> xml_query_string list \<Rightarrow> xml_query_string list" where
  "xml_query_loop path sep stop qs =
     (let key = sep + 1;
          key_len = strcspn_at path key ''=&/'';
          v = key + key_len;
          (q, sep1) =
            (if rdc path v = CHR ''='' then
               (let value_len = strcspn_at path (v + 1) ''&/'' in
                (\<lparr>q_key = drop key path, q_key_len = key_len,
                  q_value = Some (drop (v + 1) path), q_value_len = value_len\<rparr>,
                 v + 1 + value_len))
             else
               (\<lparr>q_key = drop key path, q_key_len = key_len,
                 q_value = None, q_value_len = 0\<rparr>, v))
      in if rdc path sep1 \<noteq> NUL \<and> sep1 < stop
         then xml_query_loop path sep1 stop (q # qs)
         else q # qs)"
  by pat_completeness auto
termination
  by (relation "measure (\<lambda>(path, sep, stop, qs). length path - sep)")
     (auto simp: Let_def rdc_def split: if_splits prod.splits)

definition xml_first_path_segment ::
  "xml_path_segment \<Rightarrow> string \<Rightarrow> xml_path_segment \<times> string option" where
  "xml_first_path_segment seg path =
     (let (tl0, next) =
            (case strchr_idx path (CHR ''/'') of
               None \<Rightarrow> (length path, None)
             | Some i \<Rightarrow> (i, Some (drop (i + 1) path)))
      in case strchr_idx path (CHR ''?'') of
           None \<Rightarrow> (seg\<lparr>tag_len := tl0, query := []\<rparr>, next)
         | Some j \<Rightarrow>
             if j < tl0
             then (seg\<lparr>tag_len := j, query := xml_query_loop path j tl0 (query seg)\<rparr>, next)
             else (seg\<lparr>tag_len := tl0, query := []\<rparr>, next))"

text \<open>
  \<open>xml_find\<close>; \<open>xml_find_scan\<close> is its loop over the children, \<open>es\<close> being the child
  \<open>e\<close> points at and its following siblings.  The root element must not be null; an
  address outside the store is a fault.
\<close>

function xml_find :: "xml_element list \<Rightarrow> addr \<Rightarrow> string option \<Rightarrow> xml_error + addr option"
  and xml_find_scan ::
    "xml_element list \<Rightarrow> string \<Rightarrow> xml_path_segment \<Rightarrow> string option \<Rightarrow> addr list
       \<Rightarrow> xml_error + addr option" where
  "xml_find h e path =
     (case path of
        None \<Rightarrow> Inr None
      | Some p \<Rightarrow>
          if p = [] then Inr None
          else if e < length h then
            xml_find_scan h p (fst (xml_first_path_segment seg_zero p))
              (snd (xml_first_path_segment seg_zero p)) (e_children (h ! e))
          else Inl MemoryFault)"
| "xml_find_scan h p seg next [] = Inr None"
| "xml_find_scan h p seg next (e # es) =
     (if e < length h then
        (case e_key (h ! e) of
           None \<Rightarrow> xml_find_scan h p seg next es
         | Some k \<Rightarrow>
             if length (cstr k) = tag_len seg \<and> strncasecmp_eq (cstr k) p (tag_len seg) then
               (case xml_attribute_match h e seg of
                  Inl x \<Rightarrow> Inl x
                | Inr False \<Rightarrow> xml_find_scan h p seg next es
                | Inr True \<Rightarrow>
                   (case next of
                      None \<Rightarrow> Inr (Some e)
                    | Some nx \<Rightarrow>
                       (case xml_find h e (Some nx) of
                          Inl x \<Rightarrow> Inl x
                        | Inr (Some c) \<Rightarrow> Inr (Some c)
                        | Inr None \<Rightarrow> xml_find_scan h p seg next es)))
             else xml_find_scan h p seg next es)
      else Inl MemoryFault)"
  by pat_completeness auto
termination
proof (relation "(\<lambda>x. case x of
           Inl (h, e, path) \<Rightarrow> (case path of None \<Rightarrow> 0 | Some p \<Rightarrow> 2 * length p + 2)
         | Inr (h, p, seg, next, es) \<Rightarrow> (case next of None \<Rightarrow> 1 | Some nx \<Rightarrow> 2 * length nx + 3))
       <*mlex*> measure (\<lambda>x. case x of Inl _ \<Rightarrow> 0 | Inr (h, p, seg, next, es) \<Rightarrow> length es)",
     goal_cases)
  case 1
  show ?case by (simp add: wf_mlex)
next
  case (2 h e path p)
  have "length nx < length p" if "snd (xml_first_path_segment seg_zero p) = Some nx" for nx
    using that
    by (auto simp: xml_first_path_segment_def strchr_idx_def Let_def
             split: option.splits if_splits)
  with 2 show ?case
    by (cases "snd (xml_first_path_segment seg_zero p)") (auto intro!: mlex_less)
qed (auto simp: mlex_leq mlex_less)

text \<open>
  \<open>xml_last_path_segment\<close> for a path that is not null: \<open>prev\<close> is null or an index into
  \<open>path\<close>.  The loop decrements before it tests; with \<open>prev\<close> at the start of the path the
  decrement leaves the string and \<open>*prev\<close> reads the byte before it.
\<close>

fun xml_last_path_segment_back :: "string \<Rightarrow> nat \<Rightarrow> nat" where
  "xml_last_path_segment_back path 0 = 0"
| "xml_last_path_segment_back path (Suc n) =
     (if rdc path (Suc n) \<noteq> CHR ''/'' then xml_last_path_segment_back path n else Suc n)"

definition xml_last_path_segment ::
  "xml_path_segment \<Rightarrow> string \<Rightarrow> nat option \<Rightarrow> xml_error + (xml_path_segment \<times> nat)" where
  "xml_last_path_segment seg path prev =
     (let pv = (case prev of None \<Rightarrow> length path | Some i \<Rightarrow> i) in
      if pv = 0 then Inl MemoryFault
      else
        let pv1 = xml_last_path_segment_back path (pv - 1);
            p = (if rdc path pv1 = CHR ''/'' then pv1 + 1 else pv1)
        in Inr (fst (xml_first_path_segment seg (drop p path)), pv1))"

text \<open>
  The macro \<open>FIND\<close> of \<open>xml_find_next_from\<close> on the elements \<open>es\<close> (\<open>from\<close> and its
  following siblings); \<open>lk\<close> is \<open>last->key\<close>.
\<close>

fun xml_find_next_scan ::
  "xml_element list \<Rightarrow> string option \<Rightarrow> xml_path_segment \<Rightarrow> addr list \<Rightarrow> xml_error + addr option" where
  "xml_find_next_scan h lk seg [] = Inr None"
| "xml_find_next_scan h lk seg (e # es) =
     (if e < length h then
        (case e_key (h ! e) of
           None \<Rightarrow> xml_find_next_scan h lk seg es
         | Some k \<Rightarrow>
            (case lk of
               None \<Rightarrow> Inl MemoryFault
             | Some l \<Rightarrow>
                 if strcasecmp_eq (cstr k) (cstr l) then
                   (case xml_attribute_match h e seg of
                      Inl x \<Rightarrow> Inl x
                    | Inr True \<Rightarrow> Inr (Some e)
                    | Inr False \<Rightarrow> xml_find_next_scan h lk seg es)
                 else xml_find_next_scan h lk seg es))
      else Inl MemoryFault)"

text \<open>The elements reached from \<open>e->next\<close>: the siblings after \<open>e\<close> in its parent's list.\<close>

definition next_siblings :: "xml_element list \<Rightarrow> addr \<Rightarrow> addr list" where
  "next_siblings h e =
     (case e_parent (h ! e) of
        None \<Rightarrow> []
      | Some p \<Rightarrow> if p < length h then tl (dropWhile (\<lambda>x. x \<noteq> e) (e_children (h ! p))) else [])"

text \<open>
  \<open>xml_find_next_from\<close> calls itself from inside its loop over the ancestors, and on a
  store whose parent links form a cycle it does not return; the result \<open>None\<close> of the
  model is that case.  \<open>Next_from last prev\<close> is the call
  \<open>xml_find_next_from(last, path, prev)\<close>; \<open>Branches last seg prev p\<close> is the loop of
  lines 983 to 987 of the call for \<open>last\<close>, at its test, with the segment \<open>seg\<close> and the
  position \<open>prev\<close> of that call.
\<close>

datatype find_next_call =
    Next_from "addr option" "nat option"
  | Branches addr xml_path_segment "nat option" "addr option"

partial_function (option) xml_find_next_rec ::
  "xml_element list \<Rightarrow> string option \<Rightarrow> find_next_call \<Rightarrow> (xml_error + addr option) option" where
  "xml_find_next_rec h path call =
     (case call of
        Next_from lst prev \<Rightarrow>
          (case lst of
             None \<Rightarrow> Some (Inr None)
           | Some l \<Rightarrow>
               if l < length h then
                 (case (case path of
                          None \<Rightarrow> Inr (seg_zero, prev)
                        | Some p \<Rightarrow>
                           (case xml_last_path_segment seg_zero p prev of
                              Inl x \<Rightarrow> Inl x
                            | Inr (seg, pv) \<Rightarrow> Inr (seg, Some pv))) of
                    Inl x \<Rightarrow> Some (Inl x)
                  | Inr (seg, prev1) \<Rightarrow>
                     (case xml_find_next_scan h (e_key (h ! l)) seg (next_siblings h l) of
                        Inl x \<Rightarrow> Some (Inl x)
                      | Inr (Some e) \<Rightarrow> Some (Inr (Some e))
                      | Inr None \<Rightarrow>
                          xml_find_next_rec h path (Branches l seg prev1 (e_parent (h ! l)))))
               else Some (Inl MemoryFault))
      | Branches l seg prev p \<Rightarrow>
          (case p of
             None \<Rightarrow> Some (Inr None)
           | Some pa \<Rightarrow>
               if pa < length h \<and> l < length h then
                 (if e_key (h ! pa) = None then Some (Inr None)
                  else
                    Option.bind (xml_find_next_rec h path (Next_from (Some pa) prev))
                      (\<lambda>r. case r of
                         Inl x \<Rightarrow> Some (Inl x)
                       | Inr None \<Rightarrow> Some (Inr None)
                       | Inr (Some p1) \<Rightarrow>
                           if p1 < length h then
                             (case xml_find_next_scan h (e_key (h ! l)) seg
                                     (e_children (h ! p1)) of
                                Inl x \<Rightarrow> Some (Inl x)
                              | Inr (Some e) \<Rightarrow> Some (Inr (Some e))
                              | Inr None \<Rightarrow>
                                  xml_find_next_rec h path (Branches l seg prev (Some p1)))
                           else Some (Inl MemoryFault)))
               else Some (Inl MemoryFault)))"

declare xml_find_next_rec.simps [code]

definition xml_find_next_from ::
  "xml_element list \<Rightarrow> addr option \<Rightarrow> string option \<Rightarrow> nat option
     \<Rightarrow> (xml_error + addr option) option" where
  "xml_find_next_from h lst path prev = xml_find_next_rec h path (Next_from lst prev)"

definition xml_find_next ::
  "xml_element list \<Rightarrow> addr option \<Rightarrow> string option \<Rightarrow> (xml_error + addr option) option" where
  "xml_find_next h lst path = xml_find_next_from h lst path None"

section \<open>Content concatenation\<close>

text \<open>
  \<open>xml_content_len\<close> and \<open>xml_content_cpy\<close> walk the children of an element and call
  themselves on a child without a value.  The model keeps the elements still to be
  visited, the pending loops of the callers included, in one list \<open>es\<close>, and the sum, or
  the bytes written through \<open>*t\<close>, in an accumulator.  On a store with a cycle of child
  links they do not return (\<open>None\<close>).
\<close>

partial_function (option) xml_content_len_rec ::
  "xml_element list \<Rightarrow> addr list \<Rightarrow> nat \<Rightarrow> (xml_error + nat) option" where
  "xml_content_len_rec h es s =
     (case es of
        [] \<Rightarrow> Some (Inr s)
      | e # es1 \<Rightarrow>
          if e < length h then
            (case e_value (h ! e) of
               Some v \<Rightarrow> xml_content_len_rec h es1 (s + length v)
             | None \<Rightarrow> xml_content_len_rec h (e_children (h ! e) @ es1) s)
          else Some (Inl MemoryFault))"

partial_function (option) xml_content_cpy_rec ::
  "xml_element list \<Rightarrow> addr list \<Rightarrow> string \<Rightarrow> (xml_error + string) option" where
  "xml_content_cpy_rec h es t =
     (case es of
        [] \<Rightarrow> Some (Inr t)
      | e # es1 \<Rightarrow>
          if e < length h then
            (case e_value (h ! e) of
               Some v \<Rightarrow> xml_content_cpy_rec h es1 (t @ v)
             | None \<Rightarrow> xml_content_cpy_rec h (e_children (h ! e) @ es1) t)
          else Some (Inl MemoryFault))"

declare xml_content_len_rec.simps [code]

declare xml_content_cpy_rec.simps [code]

definition xml_content_len :: "xml_element list \<Rightarrow> addr \<Rightarrow> (xml_error + nat) option" where
  "xml_content_len h e =
     (if e < length h then xml_content_len_rec h (e_children (h ! e)) 0
      else Some (Inl MemoryFault))"

definition xml_content_cpy :: "xml_element list \<Rightarrow> addr \<Rightarrow> (xml_error + string) option" where
  "xml_content_cpy h e =
     (if e < length h then xml_content_cpy_rec h (e_children (h ! e)) []
      else Some (Inl MemoryFault))"

text \<open>\<open>xml_content\<close>: the new string, or null (\<open>Inr None\<close>).\<close>

definition xml_content ::
  "xml_element list \<Rightarrow> addr option \<Rightarrow> (xml_error + string option) option" where
  "xml_content h e =
     (case e of
        None \<Rightarrow> Some (Inr None)
      | Some a \<Rightarrow>
          Option.bind (xml_content_len h a)
            (\<lambda>r. case r of
               Inl x \<Rightarrow> Some (Inl x)
             | Inr l \<Rightarrow>
                 if l < 1 then Some (Inr None)
                 else Option.bind (xml_content_cpy h a) (\<lambda>c. case c of
                        Inl x \<Rightarrow> Some (Inl x)
                      | Inr t \<Rightarrow> Some (Inr (Some t)))))"

definition xml_content_find ::
  "xml_element list \<Rightarrow> addr \<Rightarrow> string option \<Rightarrow> (xml_error + string option) option" where
  "xml_content_find h root path =
     (case xml_find h root path of
        Inl x \<Rightarrow> Some (Inl x)
      | Inr e \<Rightarrow> xml_content h e)"

section \<open>Auxiliary definitions for the properties\<close>

text \<open>Two successive calls of \<open>xml_parse_chunk\<close> on one state; the caller stops at an error.\<close>

definition xml_parse_two_chunks :: "xml_state \<Rightarrow> string \<Rightarrow> string \<Rightarrow> xml_state result" where
  "xml_parse_two_chunks st a b =
     (case xml_parse_chunk st (Some a) of
        Inl x \<Rightarrow> Inl x
      | Inr st1 \<Rightarrow> xml_parse_chunk st1 (Some b))"

text \<open>
  The test of \<open>xml_find\<close> on a child's name as the specification words it: the key and
  the name have equal length and are equal up to the case of letters.
\<close>

definition name_matches :: "xml_element list \<Rightarrow> string \<Rightarrow> addr \<Rightarrow> bool" where
  "name_matches h n c =
     (case e_key (h ! c) of
        None \<Rightarrow> False
      | Some k \<Rightarrow> length (cstr k) = length n \<and> map c_tolower (cstr k) = map c_tolower n)"

text \<open>The first result of a list that is a fault or a match.\<close>

fun first_result :: "(xml_error + addr option) list \<Rightarrow> xml_error + addr option" where
  "first_result [] = Inr None"
| "first_result (r # rs) = (case r of Inr None \<Rightarrow> first_result rs | _ \<Rightarrow> r)"

text \<open>The tree of the document \<open><a><b>1</b><b>2</b></a>\<close> (see \<open>parse_doc_ab\<close>).\<close>

definition doc_ab :: "xml_element list" where
  "doc_ab = [
   \<lparr>e_key = None, e_value = None, e_parent = None, e_children = [1], e_attributes = []\<rparr>,
   \<lparr>e_key = Some ''a'', e_value = None, e_parent = Some 0, e_children = [2, 4], e_attributes = []\<rparr>,
   \<lparr>e_key = Some ''b'', e_value = None, e_parent = Some 1, e_children = [3], e_attributes = []\<rparr>,
   \<lparr>e_key = None, e_value = Some ''1'', e_parent = Some 2, e_children = [], e_attributes = []\<rparr>,
   \<lparr>e_key = Some ''b'', e_value = None, e_parent = Some 1, e_children = [5], e_attributes = []\<rparr>,
   \<lparr>e_key = None, e_value = Some ''2'', e_parent = Some 4, e_children = [], e_attributes = []\<rparr>]"

text \<open>The last segment of a path: the bytes after its last \<open>/\<close>.\<close>

definition last_segment :: "string \<Rightarrow> string" where
  "last_segment p = rev (takeWhile (\<lambda>c. c \<noteq> CHR ''/'') (rev p))"

text \<open>
  The text of the tag that the scanner of the tag body has consumed so far, without the
  first byte of the opening pattern: the key of the new element \<open>c\<close> (the rest of the
  opening pattern while nothing has been stored), followed by the part of the
  terminating pattern that the cursor has matched.
\<close>

definition key_text :: "xml_state \<Rightarrow> xml_tag_pattern \<Rightarrow> addr \<Rightarrow> string" where
  "key_text st t c = (case e_key (s_heap st ! c) of None \<Rightarrow> tl (p_open t) | Some w \<Rightarrow> w)"

text \<open>
  The states of the scanner of the tag body for a tag \<open>t\<close> of the table that is not an
  element-close tag, with the new element \<open>c\<close> as the insertion point: either nothing has
  been stored, or \<open>st->length\<close> is the length of the key.
\<close>

definition body_inv :: "xml_state \<Rightarrow> xml_tag_pattern \<Rightarrow> addr \<Rightarrow> bool" where
  "body_inv st t c =
     (s_tag st = Some t \<and> t \<in> set xml_tag_patterns \<and> p_type t \<noteq> TAG_ELEMENT_CLOSE \<and>
      s_current st = Some c \<and> c < length (s_heap st) \<and> s_cursor st < length (p_close t) \<and>
      (case e_key (s_heap st ! c) of
         None \<Rightarrow> s_length st = 0 \<and> s_cursor st = 0
       | Some w \<Rightarrow> s_length st = length w \<and> w \<noteq> []))"

text \<open>
  What one call of the scanner of the tag body does with the data \<open>d\<close>.  Either the tag
  is still open: the key has grown by \<open>g\<close>, and \<open>g\<close> with the part of the terminating
  pattern under the cursor is what was under the cursor before, followed by \<open>d\<close>.  Or the
  terminating pattern was completed with the data \<open>u\<close>: then the cursor's part of the
  pattern followed by \<open>u\<close> is some \<open>v\<close> followed by the whole pattern, and lines 502 to 512
  run in a state \<open>sr\<close> in which the key is the old key, \<open>v\<close> and the pattern without its
  last byte.
\<close>

definition body_more ::
  "xml_state \<Rightarrow> xml_tag_pattern \<Rightarrow> addr \<Rightarrow> string \<Rightarrow> xml_state \<Rightarrow> bool" where
  "body_more st t c d st' =
     (body_inv st' t c \<and> s_parser st' = s_parser st \<and>
      (\<exists>g. key_text st' t c = key_text st t c @ g \<and>
           g @ take (s_cursor st') (p_close t) = take (s_cursor st) (p_close t) @ d))"

definition body_done ::
  "xml_state \<Rightarrow> xml_tag_pattern \<Rightarrow> addr \<Rightarrow> string \<Rightarrow> xml_state \<Rightarrow> bool" where
  "body_done st t c u st' =
     (\<exists>v sr. take (s_cursor st) (p_close t) @ u = v @ p_close t \<and>
        e_key (s_heap sr ! c) = Some (key_text st t c @ v @ butlast (p_close t)) \<and>
        s_current sr = Some c \<and> c < length (s_heap sr) \<and> s_tag sr = Some t \<and>
        xml_tag_finish sr t = Inr st')"

text \<open>
  The states in which \<open>st->length\<close> can be trusted as the length of the string that the
  active parser function appends to: when it is not 0, that string exists.  \<open>sel\<close> is the
  key or the value of an element.
\<close>

definition dest_ok :: "xml_state \<Rightarrow> (xml_element \<Rightarrow> string option) \<Rightarrow> bool" where
  "dest_ok st sel =
     (s_length st = 0 \<or>
      (case s_current st of
         None \<Rightarrow> True
       | Some c \<Rightarrow> c \<ge> length (s_heap st) \<or> sel (s_heap st ! c) \<noteq> None))"

definition len_inv :: "xml_state \<Rightarrow> bool" where
  "len_inv st =
     (case s_parser st of
        Some Content \<Rightarrow> dest_ok st e_value
      | Some TagBody \<Rightarrow> dest_ok st e_key
      | _ \<Rightarrow> True)"

text \<open>One call after another, stopping at an error.\<close>

definition then_call :: "'a result \<Rightarrow> ('a \<Rightarrow> 'b result) \<Rightarrow> 'b result" where
  "then_call r f = (case r of Inl x \<Rightarrow> Inl x | Inr v \<Rightarrow> f v)"

text \<open>
  What the parser does to the store \<open>h\<close> and the insertion point \<open>c\<close> in one step: it
  creates an element below the insertion point (or without a parent when there is none)
  and moves there, it moves to the parent of the insertion point, or it changes the key,
  the value or the attributes of the element at the insertion point.
\<close>

inductive tree_step ::
  "xml_element list \<Rightarrow> addr option \<Rightarrow> xml_element list \<Rightarrow> addr option \<Rightarrow> bool" where
  ts_orphan: "tree_step h None (h @ [new_element None]) (Some (length h))"
| ts_child: "p < length h \<Longrightarrow>
     tree_step h (Some p)
       (h[p := (h ! p)\<lparr>e_children := e_children (h ! p) @ [length h]\<rparr>] @ [new_element (Some p)])
       (Some (length h))"
| ts_close: "c < length h \<Longrightarrow> tree_step h (Some c) h (e_parent (h ! c))"
| ts_edit: "c < length h \<Longrightarrow> e_parent el = e_parent (h ! c) \<Longrightarrow>
     e_children el = e_children (h ! c) \<Longrightarrow> tree_step h (Some c) (h[c := el]) (Some c)"

inductive tree_steps ::
  "xml_element list \<Rightarrow> addr option \<Rightarrow> xml_element list \<Rightarrow> addr option \<Rightarrow> bool" where
  tss_refl: "tree_steps h c h c"
| tss_step: "tree_step h c h1 c1 \<Longrightarrow> tree_steps h1 c1 h2 c2 \<Longrightarrow> tree_steps h c h2 c2"

text \<open>The store is closed: the insertion point and all parent links are addresses in it.\<close>

definition wf_tree :: "xml_element list \<Rightarrow> addr option \<Rightarrow> bool" where
  "wf_tree h c =
     ((case c of None \<Rightarrow> True | Some x \<Rightarrow> x < length h) \<and>
      (\<forall>i<length h. case e_parent (h ! i) of None \<Rightarrow> True | Some p \<Rightarrow> p < length h))"

text \<open>
  The elements at the addresses \<open>F\<close> are finished: they are as in the store \<open>h0\<close>, the
  insertion point is not among them and no element outside \<open>F\<close> has its parent in \<open>F\<close>,
  so the insertion point cannot come back to them.
\<close>

definition frozen :: "addr set \<Rightarrow> xml_element list \<Rightarrow> xml_element list \<Rightarrow> addr option \<Rightarrow> bool" where
  "frozen F h0 h c =
     ((case c of None \<Rightarrow> True | Some x \<Rightarrow> x \<notin> F) \<and>
      (\<forall>i<length h. i \<notin> F \<longrightarrow> (case e_parent (h ! i) of None \<Rightarrow> True | Some p \<Rightarrow> p \<notin> F)) \<and>
      (\<forall>i\<in>F. i < length h \<and> h ! i = h0 ! i))"

text \<open>
  Between two calls of a parser function the empty-element flag is clear, and in content
  mode the cursor is 0.
\<close>

definition flags_inv :: "xml_state \<Rightarrow> bool" where
  "flags_inv st = (\<not> s_empty st \<and> (s_parser st \<noteq> Some Content \<or> s_cursor st = 0))"

text \<open>
  The state after the first call on a zeroed state with the empty string, and the state
  after parsing the text \<open><a/>x\<close> in one chunk: the root 0, the element 1, the text 2.
\<close>

definition st_started :: xml_state where
  "st_started = \<lparr>s_root = Some 0, s_current = Some 0, s_tag = None, s_length = 0,
     s_cursor = 0, s_empty = False, s_parser = Some Content,
     s_heap = [new_element None]\<rparr>"


text \<open>
  A path segment as the specification reads it.  The first segment of a path is its text
  up to the first \<open>/\<close>, and the rest of the path is what follows that \<open>/\<close>.  The name of
  the segment is its text up to the first \<open>?\<close>; what follows the \<open>?\<close> is a list of
  constraints separated by \<open>&\<close>, each a key, or a key and a value separated by the
  first \<open>=\<close>.
\<close>

definition segment_text :: "string \<Rightarrow> string" where
  "segment_text p = takeWhile (\<lambda>c. c \<noteq> CHR ''/'') p"

definition segment_rest :: "string \<Rightarrow> string option" where
  "segment_rest p = (case dropWhile (\<lambda>c. c \<noteq> CHR ''/'') p of [] \<Rightarrow> None | _ # r \<Rightarrow> Some r)"

definition segment_name :: "string \<Rightarrow> string" where
  "segment_name p = takeWhile (\<lambda>c. c \<noteq> CHR ''?'') (segment_text p)"

fun split_at :: "char \<Rightarrow> string \<Rightarrow> string list" where
  "split_at c [] = [[]]"
| "split_at c (x # xs) =
     (if x = c then [] # split_at c xs
      else (case split_at c xs of [] \<Rightarrow> [[x]] | w # ws \<Rightarrow> (x # w) # ws))"

definition constraint_of :: "string \<Rightarrow> string \<times> string option" where
  "constraint_of w =
     (takeWhile (\<lambda>c. c \<noteq> CHR ''='') w,
      case dropWhile (\<lambda>c. c \<noteq> CHR ''='') w of [] \<Rightarrow> None | _ # v \<Rightarrow> Some v)"

definition segment_constraints :: "string \<Rightarrow> (string \<times> string option) list" where
  "segment_constraints p =
     (case dropWhile (\<lambda>c. c \<noteq> CHR ''?'') (segment_text p) of
        [] \<Rightarrow> []
      | _ # q \<Rightarrow> map constraint_of (split_at (CHR ''&'') q))"

text \<open>
  A constraint without a value holds when the element has an attribute with that key; a
  constraint with a value holds when the element has an attribute with that key and
  exactly that value.
\<close>

definition constraint_holds :: "xml_attribute list \<Rightarrow> string \<times> string option \<Rightarrow> bool" where
  "constraint_holds as c =
     (case snd c of
        None \<Rightarrow> (\<exists>a\<in>set as. a_key a = fst c)
      | Some v \<Rightarrow> (\<exists>a\<in>set as. a_key a = fst c \<and> a_value a = Some v))"

text \<open>
  No constraint with a value meets an attribute with its key and without a value (the
  case in which \<open>xml_attribute_match\<close> reads through a null pointer).
\<close>

definition values_present :: "xml_attribute list \<Rightarrow> (string \<times> string option) list \<Rightarrow> bool" where
  "values_present as cs =
     (\<forall>c\<in>set cs. snd c \<noteq> None \<longrightarrow> (\<forall>a\<in>set as. a_key a = fst c \<longrightarrow> a_value a \<noteq> None))"

text \<open>A query string of the code stands for a constraint.\<close>

definition q_rep :: "xml_query_string \<Rightarrow> string \<times> string option \<Rightarrow> bool" where
  "q_rep q c =
     (q_key_len q = length (fst c) \<and> take (length (fst c)) (q_key q) = fst c \<and>
      (case snd c of
         None \<Rightarrow> q_value q = None
       | Some v \<Rightarrow> (case q_value q of
                      None \<Rightarrow> False
                    | Some w \<Rightarrow> q_value_len q = length v \<and> take (length v) w = v)))"


text \<open>
  A child \<open>c\<close> matches the first segment of the path \<open>p\<close>: its key matches the name of the
  segment, and its attributes satisfy every constraint of the segment.
\<close>

definition child_matches :: "xml_element list \<Rightarrow> string \<Rightarrow> addr \<Rightarrow> bool" where
  "child_matches h p c =
     (name_matches h (segment_name p) c \<and>
      list_all (constraint_holds (e_attributes (h ! c))) (segment_constraints p))"

text \<open>
  An element \<open>e\<close> is a next match for a last match with the key \<open>lk\<close> and the path \<open>p\<close>: it
  has a key that equals \<open>lk\<close> up to case, and its attributes satisfy every constraint of
  the last segment of the path.
\<close>

definition sibling_matches :: "xml_element list \<Rightarrow> string \<Rightarrow> string \<Rightarrow> addr \<Rightarrow> bool" where
  "sibling_matches h lk p e =
     (case e_key (h ! e) of
        None \<Rightarrow> False
      | Some k \<Rightarrow> map c_tolower (cstr k) = map c_tolower (cstr lk) \<and>
                  list_all (constraint_holds (e_attributes (h ! e)))
                    (segment_constraints (last_segment p)))"

text \<open>
  The tree of the document \<open><a><c x='1'>p</c><b x='1'>q</b><b x='2'>r</b><b x='1'>s</b></a>\<close>
  (see \<open>parse_doc_cb\<close>): the root 0, \<open>a\<close> at 1, \<open>c\<close> at 2 and the three \<open>b\<close> at 4, 6 and 8,
  each followed by its text.
\<close>

definition doc_cb :: "xml_element list" where
  "doc_cb = [
   \<lparr>e_key = None, e_value = None, e_parent = None, e_children = [1], e_attributes = []\<rparr>,
   \<lparr>e_key = Some ''a'', e_value = None, e_parent = Some 0, e_children = [2, 4, 6, 8],
     e_attributes = []\<rparr>,
   \<lparr>e_key = Some [CHR ''c'', CHR 0x00, CHR ''x'', CHR 0x00, CHR 0x27, CHR ''1'', CHR 0x00],
     e_value = None, e_parent = Some 1, e_children = [3],
     e_attributes = [\<lparr>a_key = ''x'', a_value = Some ''1''\<rparr>]\<rparr>,
   \<lparr>e_key = None, e_value = Some ''p'', e_parent = Some 2, e_children = [], e_attributes = []\<rparr>,
   \<lparr>e_key = Some [CHR ''b'', CHR 0x00, CHR ''x'', CHR 0x00, CHR 0x27, CHR ''1'', CHR 0x00],
     e_value = None, e_parent = Some 1, e_children = [5],
     e_attributes = [\<lparr>a_key = ''x'', a_value = Some ''1''\<rparr>]\<rparr>,
   \<lparr>e_key = None, e_value = Some ''q'', e_parent = Some 4, e_children = [], e_attributes = []\<rparr>,
   \<lparr>e_key = Some [CHR ''b'', CHR 0x00, CHR ''x'', CHR 0x00, CHR 0x27, CHR ''2'', CHR 0x00],
     e_value = None, e_parent = Some 1, e_children = [7],
     e_attributes = [\<lparr>a_key = ''x'', a_value = Some ''2''\<rparr>]\<rparr>,
   \<lparr>e_key = None, e_value = Some ''r'', e_parent = Some 6, e_children = [], e_attributes = []\<rparr>,
   \<lparr>e_key = Some [CHR ''b'', CHR 0x00, CHR ''x'', CHR 0x00, CHR 0x27, CHR ''1'', CHR 0x00],
     e_value = None, e_parent = Some 1, e_children = [9],
     e_attributes = [\<lparr>a_key = ''x'', a_value = Some ''1''\<rparr>]\<rparr>,
   \<lparr>e_key = None, e_value = Some ''s'', e_parent = Some 8, e_children = [], e_attributes = []\<rparr>]"

text \<open>
  The calls that the loop of \<open>xml_parse_chunk\<close> makes from content mode on data that
  starts with a tag: \<open>xml_parse_content\<close>, which stops at the \<open><\<close>, then
  \<open>xml_parse_tag_opening\<close> and \<open>xml_parse_tag_body\<close> (see \<open>parse_loop_tag\<close>).
\<close>

definition xml_parse_tag :: "xml_state \<Rightarrow> string \<Rightarrow> (xml_state \<times> string) result" where
  "xml_parse_tag st d =
     then_call (xml_parse_content st d)
       (\<lambda>(s1, d1). then_call (xml_parse_tag_opening s1 d1)
          (\<lambda>(s2, d2). xml_parse_tag_body s2 d2))"

text \<open>
  The states after the comment \<open><!--a-b-->\<close> and after the tag \<open><ab>\<close> at the start of a
  document.
\<close>

definition st_comment_done :: xml_state where
  "st_comment_done = \<lparr>s_root = Some 0, s_current = Some 0, s_tag = None,
     s_length = 0, s_cursor = 0, s_empty = False, s_parser = Some Content,
     s_heap = [\<lparr>e_key = None, e_value = None, e_parent = None, e_children = [1],
                 e_attributes = []\<rparr>,
               \<lparr>e_key = Some ''!--a-b--'', e_value = None, e_parent = Some 0,
                 e_children = [], e_attributes = []\<rparr>]\<rparr>"

definition st_ab_open :: xml_state where
  "st_ab_open = \<lparr>s_root = Some 0, s_current = Some 1, s_tag = None,
     s_length = 0, s_cursor = 0, s_empty = False, s_parser = Some Content,
     s_heap = [\<lparr>e_key = None, e_value = None, e_parent = None, e_children = [1],
                 e_attributes = []\<rparr>,
               \<lparr>e_key = Some ''ab'', e_value = None, e_parent = Some 0,
                 e_children = [], e_attributes = []\<rparr>]\<rparr>"

text \<open>
  The text of an element-open tag ends in the marker of a self-closing element: the last
  byte of its C string that is not whitespace is a \<open>/\<close>.
\<close>

definition self_closing :: "string \<Rightarrow> bool" where
  "self_closing k =
     (case dropWhile (\<lambda>c. c \<in> set WHITESPACE) (rev (cstr k)) of
        [] \<Rightarrow> False
      | x # _ \<Rightarrow> x = CHR ''/'')"

text \<open>The state after parsing \<open><a>x &amp; y</a>\<close> in one chunk.\<close>

definition st_amp :: xml_state where
  "st_amp = \<lparr>s_root = Some 0, s_current = Some 0, s_tag = None, s_length = 0,
     s_cursor = 0, s_empty = False, s_parser = Some Content,
     s_heap =
       [\<lparr>e_key = None, e_value = None, e_parent = None, e_children = [1],
          e_attributes = []\<rparr>,
        \<lparr>e_key = Some ''a'', e_value = None, e_parent = Some 0, e_children = [2],
          e_attributes = []\<rparr>,
        \<lparr>e_key = None, e_value = Some ''x &amp; y'', e_parent = Some 1, e_children = [],
          e_attributes = []\<rparr>]\<rparr>"


text \<open>
  The trees of the documents \<open><a x='1>2'>t</a>\<close>, \<open><a></a>\<close> and \<open><a><![CDATA[x]]></a>\<close>
  (the root at 0, the element \<open>a\<close> at 1).
\<close>

definition doc_gt :: "xml_element list" where
  "doc_gt = [
   \<lparr>e_key = None, e_value = None, e_parent = None, e_children = [1], e_attributes = []\<rparr>,
   \<lparr>e_key = Some [CHR ''a'', CHR 0x00, CHR ''x'', CHR 0x00, CHR 0x27, CHR 0x00],
     e_value = None, e_parent = Some 0, e_children = [2],
     e_attributes = [\<lparr>a_key = ''x'', a_value = Some []\<rparr>]\<rparr>,
   \<lparr>e_key = None, e_value = Some [CHR ''2'', CHR 0x27, CHR ''>'', CHR ''t''],
     e_parent = Some 1, e_children = [], e_attributes = []\<rparr>]"

definition doc_empty_a :: "xml_element list" where
  "doc_empty_a = [
   \<lparr>e_key = None, e_value = None, e_parent = None, e_children = [1], e_attributes = []\<rparr>,
   \<lparr>e_key = Some ''a'', e_value = None, e_parent = Some 0, e_children = [],
     e_attributes = []\<rparr>]"

definition doc_cdata_a :: "xml_element list" where
  "doc_cdata_a = [
   \<lparr>e_key = None, e_value = None, e_parent = None, e_children = [1], e_attributes = []\<rparr>,
   \<lparr>e_key = Some ''a'', e_value = None, e_parent = Some 0, e_children = [2],
     e_attributes = []\<rparr>,
   \<lparr>e_key = Some ''![CDATA[x]]'', e_value = None, e_parent = Some 1, e_children = [],
     e_attributes = []\<rparr>]"

section \<open>Properties\<close>

subsection \<open>Empty and null chunks\<close>

lemma xml_parse_loop_Nil: "xml_parse_loop st [] = Inr st"
  by (simp add: xml_parse_loop.simps)

text \<open>
  Claim C8, as stated, at the zero state: the call with the empty string returns success,
  but the state had no tree and has one afterwards, the root element.
\<close>

theorem C8_fresh_state_gets_root:
  "xml_parse_chunk xml_state_zero (Some []) =
     Inr \<lparr>s_root = Some 0, s_current = Some 0, s_tag = None, s_length = 0, s_cursor = 0,
          s_empty = False, s_parser = Some Content, s_heap = [new_element None]\<rparr>
   \<and> s_root xml_state_zero = None \<and> s_heap xml_state_zero = []"
  by (simp add: xml_parse_chunk_def xml_state_zero_def xml_element_create_def
        xml_close_tag_def xml_parse_loop_Nil)

text \<open>
  Claim C8, amended: a null chunk is an error and the state is the one before the call.
  The empty string returns success; on a state that has a root the store, the root and the
  insertion point are unchanged (the state is unchanged altogether when a parser function
  is set); on a state without a root the call creates the root element and makes it the
  insertion point.
\<close>

theorem C8_empty_and_null_chunk:
  "xml_parse_chunk st None = Inl (NullChunk, st) \<and>
   (s_root st \<noteq> None \<longrightarrow>
      (\<exists>st'. xml_parse_chunk st (Some []) = Inr st' \<and> s_heap st' = s_heap st \<and>
             s_root st' = s_root st \<and> s_current st' = s_current st \<and>
             (s_parser st \<noteq> None \<longrightarrow> st' = st))) \<and>
   (s_root st = None \<longrightarrow>
      (\<exists>st'. xml_parse_chunk st (Some []) = Inr st' \<and>
             s_heap st' = s_heap st @ [new_element None] \<and>
             s_root st' = Some (length (s_heap st)) \<and>
             s_current st' = Some (length (s_heap st))))"
  by (auto simp: xml_parse_chunk_def xml_element_create_def xml_close_tag_def
        xml_parse_loop_Nil)

theorem C8_empty_and_null_chunk_witness:
  "s_root (xml_state_zero\<lparr>s_root := Some 0, s_current := Some 0, s_parser := Some Content,
      s_heap := [new_element None]\<rparr>) \<noteq> None \<and>
   xml_parse_chunk (xml_state_zero\<lparr>s_root := Some 0, s_current := Some 0,
      s_parser := Some Content, s_heap := [new_element None]\<rparr>) (Some []) =
     Inr (xml_state_zero\<lparr>s_root := Some 0, s_current := Some 0, s_parser := Some Content,
      s_heap := [new_element None]\<rparr>) \<and>
   s_root xml_state_zero = None \<and>
   (\<exists>st'. xml_parse_chunk xml_state_zero (Some []) = Inr st' \<and> s_root st' = Some 0)"
  using C8_empty_and_null_chunk [of "xml_state_zero\<lparr>s_root := Some 0, s_current := Some 0,
      s_parser := Some Content, s_heap := [new_element None]\<rparr>"]
    C8_empty_and_null_chunk [of xml_state_zero]
  by (auto simp: xml_state_zero_def)

subsection \<open>Quoted attribute values\<close>

text \<open>
  Claim C9 at the value \<open>\"x\<close> followed by the closing quote: the escaped quote is the
  first byte of the value, the loop steps over the backslash without looking at it and
  stops at the escaped quote, so the span is 1 and not 3.  With a byte in front of the
  backslash the escape is honoured and the span ends at the closing quote.
\<close>

theorem C9_escaped_quote_in_first_position:
  "xml_quotedspn [CHR 0x5C, CHR 0x22, CHR ''x'', CHR 0x22] 0 (CHR 0x22) = Inr 1 \<and>
   xml_quotedspn [CHR ''a'', CHR 0x5C, CHR 0x22, CHR ''x'', CHR 0x22] 0 (CHR 0x22) = Inr 4"
  by code_simp

subsection \<open>Finding elements by path\<close>

lemma parse_doc_ab: "xml_parse (Some ''<a><b>1</b><b>2</b></a>'') = Some (doc_ab, 0)"
  by code_simp

lemma takeWhile_neq_append:
  "c \<notin> set n \<Longrightarrow> takeWhile (\<lambda>x. x \<noteq> c) (n @ r) = n @ takeWhile (\<lambda>x. x \<noteq> c) r"
  by (induction n) auto

lemma strchr_idx_append:
  "c \<notin> set n \<Longrightarrow> strchr_idx (n @ c # r) c = Some (length n)"
  by (simp add: strchr_idx_def takeWhile_neq_append Let_def)

lemma strchr_idx_none: "c \<notin> set n \<Longrightarrow> strchr_idx n c = None"
proof -
  assume "c \<notin> set n"
  then have eq: "takeWhile (\<lambda>x. x \<noteq> c) n = n" by (induction n) auto
  show ?thesis unfolding strchr_idx_def Let_def eq by simp
qed

lemma strchr_idx_ge:
  "c \<notin> set n \<Longrightarrow> strchr_idx (n @ r) c = Some j \<Longrightarrow> length n \<le> j"
  by (auto simp: strchr_idx_def Let_def takeWhile_neq_append split: if_splits)

text \<open>
  Claim C4 on the trees the parser builds.  On \<open><a><b x="1">p</b><b x="2">q</b></a>\<close> the
  path \<open>a/b?x=1\<close> finds the first \<open>b\<close>, whose content is \<open>p\<close>, the path \<open>a/b?x=3\<close> finds
  nothing, and the constraint \<open>x\<close> without a value is satisfied by the first \<open>b\<close>.  On
  \<open><a><b x>p</b></a>\<close> the attribute \<open>x\<close> has no value, and the path \<open>a/b?x=1\<close> makes
  \<open>xml_attribute_match\<close> take \<open>strlen\<close> of a null pointer instead of answering no match.
\<close>

theorem C4_attribute_constraints:
  "(case xml_parse (Some (''<a><b x='' @ [CHR 0x22] @ ''1'' @ [CHR 0x22] @ ''>p</b><b x=''
          @ [CHR 0x22] @ ''2'' @ [CHR 0x22] @ ''>q</b></a>'')) of
      None \<Rightarrow> False
    | Some (h, r) \<Rightarrow>
        xml_find h r (Some ''a/b?x=1'') = Inr (Some 2) \<and>
        xml_content h (Some 2) = Some (Inr (Some ''p'')) \<and>
        xml_find h r (Some ''a/b?x=3'') = Inr None \<and>
        xml_find h r (Some ''a/b?x'') = Inr (Some 2)) \<and>
   (case xml_parse (Some ''<a><b x>p</b></a>'') of
      None \<Rightarrow> False
    | Some (h, r) \<Rightarrow>
        e_attributes (h ! 2) = [\<lparr>a_key = ''x'', a_value = None\<rparr>] \<and>
        xml_find h r (Some ''a/b?x=1'') = Inl MemoryFault)"
  by code_simp

lemma last_path_segment_back_le: "xml_last_path_segment_back p n \<le> n"
  by (induction n) auto

lemma last_path_segment_back_take:
  "n < length p \<Longrightarrow>
     drop (if rdc p (xml_last_path_segment_back p n) = CHR ''/''
           then xml_last_path_segment_back p n + 1 else xml_last_path_segment_back p n)
          (take (Suc n) p) = last_segment (take (Suc n) p)"
proof (induction n)
  case 0
  then show ?case
    by (cases p) (auto simp: rdc_def last_segment_def)
next
  case (Suc m)
  let ?c = "p ! Suc m"
  have tk: "take (Suc (Suc m)) p = take (Suc m) p @ [?c]"
    using Suc.prems by (simp add: take_Suc_conv_app_nth)
  show ?case
  proof (cases "?c = CHR ''/''")
    case True
    with Suc.prems show ?thesis
      by (simp add: rdc_def last_segment_def tk)
  next
    case False
    have le: "xml_last_path_segment_back p m \<le> m" by (rule last_path_segment_back_le)
    from Suc have ih: "drop (if rdc p (xml_last_path_segment_back p m) = CHR ''/''
           then xml_last_path_segment_back p m + 1 else xml_last_path_segment_back p m)
          (take (Suc m) p) = last_segment (take (Suc m) p)" by simp
    from False Suc.prems le show ?thesis
      using ih by (auto simp: rdc_def last_segment_def tk)
  qed
qed

lemma last_path_segment_last:
  assumes "p \<noteq> []"
  shows "xml_last_path_segment seg_zero p None =
           Inr (fst (xml_first_path_segment seg_zero (last_segment p)),
                xml_last_path_segment_back p (length p - 1))"
proof -
  from assms have "length p - 1 < length p" by (cases p) simp_all
  from last_path_segment_back_take[OF this] assms
  have "drop (if rdc p (xml_last_path_segment_back p (length p - 1)) = CHR ''/''
           then xml_last_path_segment_back p (length p - 1) + 1
           else xml_last_path_segment_back p (length p - 1)) p = last_segment p"
    by simp
  with assms show ?thesis
    by (simp add: xml_last_path_segment_def Let_def split: if_splits)
qed

subsection \<open>The branches of the tag body scanner\<close>

lemma tag_body_Nil: "xml_parse_tag_body st [] = Inr (st, [])"
  by (simp add: xml_parse_tag_body.simps)

lemma tag_body_no_tag:
  "d \<noteq> [] \<Longrightarrow> s_tag st = None \<Longrightarrow> xml_parse_tag_body st d = Inl (MemoryFault, st)"
  by (simp add: xml_parse_tag_body.simps)

lemma tag_body_found:
  assumes "s_tag st = Some t" "s_cursor st = 0"
    and "length (takeWhile (\<lambda>c. c \<noteq> rdc (p_close t) 0) d) < length d"
  shows "xml_parse_tag_body st d =
     (case xml_tag_match st t (takeWhile (\<lambda>c. c \<noteq> rdc (p_close t) 0) d) of
        Inl x \<Rightarrow> Inl x
      | Inr (st1, done) \<Rightarrow>
          if done then Inr (st1, tl (dropWhile (\<lambda>c. c \<noteq> rdc (p_close t) 0) d))
          else xml_parse_tag_body st1 (tl (dropWhile (\<lambda>c. c \<noteq> rdc (p_close t) 0) d)))"
proof -
  let ?P = "\<lambda>c. c \<noteq> rdc (p_close t) 0"
  have a: "take (length (takeWhile ?P d)) d = takeWhile ?P d"
    by (metis append_eq_conv_conj takeWhile_dropWhile_id)
  have "drop (Suc (length (takeWhile ?P d))) d = tl (dropWhile ?P d)"
    by (metis append_eq_conv_conj drop_Suc tl_drop takeWhile_dropWhile_id)
  then have b: "drop (length (takeWhile ?P d) + 1) d = tl (dropWhile ?P d)" by simp
  from assms have "d \<noteq> []" by auto
  with assms a b show ?thesis
    by (subst xml_parse_tag_body.simps) (simp add: Let_def split: sum.splits prod.splits)
qed

lemma tag_body_rest:
  assumes "d \<noteq> []" "s_tag st = Some t" "s_cursor st = 0"
    and "\<not> length (takeWhile (\<lambda>c. c \<noteq> rdc (p_close t) 0) d) < length d"
  shows "xml_parse_tag_body st d =
     (case xml_key_append st d of Inl x \<Rightarrow> Inl x | Inr st1 \<Rightarrow> Inr (st1, []))"
  using assms by (subst xml_parse_tag_body.simps) (simp add: Let_def)

lemma tag_body_cursor_fault:
  assumes "s_tag st = Some t" "s_cursor st \<noteq> 0" "s_cursor st > length (p_close t)"
  shows "xml_parse_tag_body st (c # d) = Inl (MemoryFault, st)"
  using assms by (subst xml_parse_tag_body.simps) simp

lemma tag_body_cursor_match:
  assumes "s_tag st = Some t" "s_cursor st \<noteq> 0" "s_cursor st \<le> length (p_close t)"
    and "rdc (p_close t) (s_cursor st) = c"
  shows "xml_parse_tag_body st (c # d) =
     (case xml_tag_match st t [] of
        Inl x \<Rightarrow> Inl x
      | Inr (st1, done) \<Rightarrow> if done then Inr (st1, d) else xml_parse_tag_body st1 d)"
  using assms by (subst xml_parse_tag_body.simps) (simp split: sum.splits prod.splits)

lemma tag_body_cursor_flush:
  assumes "s_tag st = Some t" "s_cursor st \<noteq> 0" "s_cursor st \<le> length (p_close t)"
    and "rdc (p_close t) (s_cursor st) \<noteq> c"
  shows "xml_parse_tag_body st (c # d) =
     (case xml_key_append st (take (s_cursor st) (p_close t)) of
        Inl x \<Rightarrow> Inl x
      | Inr st1 \<Rightarrow> xml_parse_tag_body (st1\<lparr>s_cursor := 0\<rparr>) (c # d))"
  using assms by (subst xml_parse_tag_body.simps) simp

lemma takeWhile_neq_id: "c \<notin> set n \<Longrightarrow> takeWhile (\<lambda>x. x \<noteq> c) n = n"
  by (induction n) auto

lemma dropWhile_neq_append:
  "c \<notin> set n \<Longrightarrow> dropWhile (\<lambda>x. x \<noteq> c) (n @ c # r) = c # r"
  by (induction n) auto

subsection \<open>Element-close tags\<close>

lemma key_append_close:
  assumes "s_tag st = Some t" "p_type t = TAG_ELEMENT_CLOSE" "s_current st = Some c"
  shows "xml_key_append st x = Inr st"
  using assms by (simp add: xml_key_append_def)


lemma tag_close_complete:
  assumes "s_tag st = Some pat_close" "s_cursor st = 0" "s_current st = Some c"
    "c < length (s_heap st)"
  shows "xml_tag_match st pat_close x =
           Inr (xml_close_tag (st\<lparr>s_current := e_parent (s_heap st ! c)\<rparr>), True)"
  using assms
  by (simp add: xml_tag_match_def key_append_close[where t = pat_close] pat_close_def
        TAG_ELEMENT_CLOSE_def TAG_ELEMENT_OPEN_def rdc_def NUL_def xml_tag_complete_def
        xml_tag_finish_def xml_close_element_def xml_close_tag_def)

text \<open>
  Claim C10.  While the active tag is the element-close pattern and there is a current
  element, \<open>xml_key_append\<close> stores nothing, so the text of the tag leaves the state as
  it is; at the closing \<open>>\<close> the insertion point becomes the parent of the current
  element and the tag is forgotten.  The result does not depend on the text \<open>x\<close> of the
  tag, and the store is unchanged.  On \<open><a>x</b>y\<close> the tag \<open></b>\<close> closes \<open>a\<close>: the text
  \<open>y\<close> becomes a child of the root.
\<close>

theorem C10_close_tag_ignores_name:
  assumes "s_tag st = Some pat_close" and "s_cursor st = 0" and "s_current st = Some c"
    and "c < length (s_heap st)" and "CHR ''>'' \<notin> set x"
  shows "xml_key_append st x = Inr st \<and>
         xml_parse_tag_body st x = Inr (st, []) \<and>
         xml_parse_tag_body st (x @ CHR ''>'' # rest) =
           Inr (xml_close_tag (st\<lparr>s_current := e_parent (s_heap st ! c)\<rparr>), rest) \<and>
         xml_parse (Some ''<a>x</b>y'') = Some ([
           \<lparr>e_key = None, e_value = None, e_parent = None, e_children = [1, 3],
              e_attributes = []\<rparr>,
           \<lparr>e_key = Some ''a'', e_value = None, e_parent = Some 0, e_children = [2],
              e_attributes = []\<rparr>,
           \<lparr>e_key = None, e_value = Some ''x'', e_parent = Some 1, e_children = [],
              e_attributes = []\<rparr>,
           \<lparr>e_key = None, e_value = Some ''y'', e_parent = Some 0, e_children = [],
              e_attributes = []\<rparr>], 0)"
proof -
  have ka: "xml_key_append st y = Inr st" for y
    using assms(1,3) by (simp add: key_append_close[where t = pat_close] pat_close_def
        TAG_ELEMENT_CLOSE_def)
  have cl: "rdc (p_close pat_close) 0 = CHR ''>''"
    by (simp add: pat_close_def rdc_def)
  have b1: "xml_parse_tag_body st x = Inr (st, [])"
  proof (cases "x = []")
    case True
    then show ?thesis by (simp add: tag_body_Nil)
  next
    case False
    with assms show ?thesis
      by (simp add: tag_body_rest[where t = pat_close] cl takeWhile_neq_id ka)
  qed
  have b2: "xml_parse_tag_body st (x @ CHR ''>'' # rest) =
           Inr (xml_close_tag (st\<lparr>s_current := e_parent (s_heap st ! c)\<rparr>), rest)"
    using assms
    by (simp add: tag_body_found[where t = pat_close] cl takeWhile_neq_append
          dropWhile_neq_append tag_close_complete)
  have ex: "xml_parse (Some ''<a>x</b>y'') = Some ([
           \<lparr>e_key = None, e_value = None, e_parent = None, e_children = [1, 3],
              e_attributes = []\<rparr>,
           \<lparr>e_key = Some ''a'', e_value = None, e_parent = Some 0, e_children = [2],
              e_attributes = []\<rparr>,
           \<lparr>e_key = None, e_value = Some ''x'', e_parent = Some 1, e_children = [],
              e_attributes = []\<rparr>,
           \<lparr>e_key = None, e_value = Some ''y'', e_parent = Some 0, e_children = [],
              e_attributes = []\<rparr>], 0)"
    by code_simp
  from ka b1 b2 ex show ?thesis by simp
qed

theorem C10_close_tag_ignores_name_witness:
  "xml_parse_tag_body
     \<lparr>s_root = Some 0, s_current = Some 1, s_tag = Some pat_close, s_length = 0,
      s_cursor = 0, s_empty = False, s_parser = Some TagBody,
      s_heap = [new_element None\<lparr>e_children := [1]\<rparr>,
                new_element (Some 0)\<lparr>e_key := Some ''a''\<rparr>]\<rparr> ''b>y'' =
   Inr (\<lparr>s_root = Some 0, s_current = Some 0, s_tag = None, s_length = 0,
      s_cursor = 0, s_empty = False, s_parser = Some Content,
      s_heap = [new_element None\<lparr>e_children := [1]\<rparr>,
                new_element (Some 0)\<lparr>e_key := Some ''a''\<rparr>]\<rparr>, ''y'')"
  using C10_close_tag_ignores_name [of
     "\<lparr>s_root = Some 0, s_current = Some 1, s_tag = Some pat_close, s_length = 0,
      s_cursor = 0, s_empty = False, s_parser = Some TagBody,
      s_heap = [new_element None\<lparr>e_children := [1]\<rparr>,
                new_element (Some 0)\<lparr>e_key := Some ''a''\<rparr>]\<rparr>" 1 "''b''" "''y''"]
  by (simp add: xml_close_tag_def new_element_def)

subsection \<open>The key of a tag\<close>

lemma pattern_facts:
  assumes "t \<in> set xml_tag_patterns"
  shows "p_open_len t = length (p_open t)" and "p_close t \<noteq> []" and "NUL \<notin> set (p_close t)"
    and "take (p_open_len t - 1) (drop 1 (p_open t)) = tl (p_open t)"
    and "(tl (p_open t) = []) = (p_open_len t \<le> 1)"
  using assms
  by (auto simp: xml_tag_patterns_def pat_open_def pat_close_def pat_pi_def pat_type_def
        pat_comment_def pat_cdata_def NUL_def)

lemma key_append_body_inv_all:
  assumes "body_inv st t c" and "xml_key_append st x = Inr st1"
  shows "body_inv st1 t c \<and> key_text st1 t c = key_text st t c @ x \<and>
      s_cursor st1 = s_cursor st \<and> s_parser st1 = s_parser st \<and> e_key (s_heap st1 ! c) \<noteq> None"
proof -
  from assms(1) have t: "s_tag st = Some t" and tt: "t \<in> set xml_tag_patterns"
    and ty: "p_type t \<noteq> TAG_ELEMENT_CLOSE" and cu: "s_current st = Some c"
    and cl: "c < length (s_heap st)" and cs: "s_cursor st < length (p_close t)"
    by (simp_all add: body_inv_def)
  note pf = pattern_facts[OF tt]
  show ?thesis
  proof (cases "e_key (s_heap st ! c)")
    case None
    with assms(1) have l0: "s_length st = 0" and c0: "s_cursor st = 0"
      by (simp_all add: body_inv_def)
    show ?thesis
    proof (cases "p_open_len t > 1")
      case True
      with pf(5) have ne: "tl (p_open t) \<noteq> []" by auto
      from assms(2) t ty cu cl None l0 True pf(4) ne cs tt show ?thesis
        by (auto simp: xml_key_append_def key_string_append_def xml_string_append_def
              body_inv_def key_text_def Let_def split: if_splits)
    next
      case False
      with pf(5) have e: "tl (p_open t) = []" by auto
      from assms(2) t ty cu cl None l0 False e cs tt c0 show ?thesis
        by (auto simp: xml_key_append_def key_string_append_def xml_string_append_def
              body_inv_def key_text_def Let_def split: if_splits)
    qed
  next
    case (Some w)
    with assms(1) have l: "s_length st = length w" and wn: "w \<noteq> []"
      by (simp_all add: body_inv_def)
    from assms(2) t ty cu cl Some l wn cs tt show ?thesis
      by (auto simp: xml_key_append_def key_string_append_def xml_string_append_def
            body_inv_def key_text_def Let_def split: if_splits)
  qed
qed

lemma key_append_body_inv:
  assumes "body_inv st t c" and "xml_key_append st x = Inr st1"
  shows "body_inv st1 t c" and "key_text st1 t c = key_text st t c @ x"
    and "s_cursor st1 = s_cursor st" and "s_parser st1 = s_parser st"
    and "e_key (s_heap st1 ! c) \<noteq> None"
  using key_append_body_inv_all[OF assms] by simp_all


lemma rdc_close_NUL:
  assumes "t \<in> set xml_tag_patterns" "k \<le> length (p_close t)"
  shows "(rdc (p_close t) k = NUL) = (k = length (p_close t))"
proof (cases "k < length (p_close t)")
  case True
  then have "p_close t ! k \<in> set (p_close t)" by (rule nth_mem)
  with pattern_facts(3)[OF assms(1)] have "p_close t ! k \<noteq> NUL" by metis
  with True show ?thesis by (simp add: rdc_def)
next
  case False
  with assms(2) show ?thesis by (simp add: rdc_def)
qed

lemma tag_complete_raw:
  assumes "s_tag st = Some t" "t \<in> set xml_tag_patterns" "s_current st = Some c"
    "c < length (s_heap st)" "e_key (s_heap st ! c) = Some w" "s_length st = length w"
    "s_cursor st = length (p_close t)" "xml_tag_complete st t = Inr st'"
  shows "\<exists>sr. e_key (s_heap sr ! c) = Some (w @ butlast (p_close t)) \<and>
        s_current sr = Some c \<and> c < length (s_heap sr) \<and> s_tag sr = Some t \<and>
        xml_tag_finish sr t = Inr st'"
proof (cases "s_cursor st > 1")
  case True
  let ?sr = "st\<lparr>s_heap := (s_heap st)[c := (s_heap st ! c)
                 \<lparr>e_key := Some (w @ butlast (p_close t))\<rparr>],
               s_length := length w + (length (p_close t) - 1)\<rparr>"
  from True assms have "xml_tag_finish ?sr t = Inr st'"
    by (auto simp: xml_tag_complete_def key_string_append_def xml_string_append_def
          Let_def butlast_conv_take split: if_splits)
  with assms show ?thesis
    by (intro exI[of _ ?sr]) simp
next
  case False
  with assms pattern_facts(2)[OF assms(2)] have "length (p_close t) = 1"
    by (cases "p_close t") auto
  then have "butlast (p_close t) = []" by (cases "p_close t") auto
  with False assms show ?thesis
    by (intro exI[of _ st]) (simp add: xml_tag_complete_def)
qed

lemma tag_match_body_inv:
  assumes "body_inv st t c" and "xml_tag_match st t pre = Inr (st2, dn)"
    and "s_cursor st \<noteq> 0 \<longrightarrow> pre = []"
  shows "\<exists>st1. body_inv st1 t c \<and> key_text st1 t c = key_text st t c @ pre \<and>
           s_cursor st1 = s_cursor st \<and> s_parser st1 = s_parser st \<and>
           e_key (s_heap st1 ! c) \<noteq> None \<and>
           (if Suc (s_cursor st) = length (p_close t)
            then dn \<and> xml_tag_complete (st1\<lparr>s_cursor := Suc (s_cursor st)\<rparr>) t = Inr st2
            else \<not> dn \<and> st2 = st1\<lparr>s_cursor := Suc (s_cursor st)\<rparr>)"
proof -
  from assms(1) have tt: "t \<in> set xml_tag_patterns"
    and cs: "s_cursor st < length (p_close t)"
    by (simp_all add: body_inv_def)
  have nul: "(rdc (p_close t) (Suc (s_cursor st)) = NUL) = (Suc (s_cursor st) = length (p_close t))"
    using rdc_close_NUL[OF tt, of "Suc (s_cursor st)"] cs by simp
  show ?thesis
  proof (cases "s_cursor st = 0")
    case True
    with assms(2) obtain st1 where k: "xml_key_append st pre = Inr st1"
      by (cases "xml_key_append st pre") (auto simp: xml_tag_match_def)
    note ka = key_append_body_inv[OF assms(1) k]
    from assms(2) k True cs nul ka(3) have
      "(if Suc (s_cursor st) = length (p_close t)
            then dn \<and> xml_tag_complete (st1\<lparr>s_cursor := Suc (s_cursor st)\<rparr>) t = Inr st2
            else \<not> dn \<and> st2 = st1\<lparr>s_cursor := Suc (s_cursor st)\<rparr>)"
      by (auto simp: xml_tag_match_def Let_def split: if_splits sum.splits)
    with ka show ?thesis by blast
  next
    case False
    with assms(3) have pre: "pre = []" by simp
    from False assms(1) have kn: "e_key (s_heap st ! c) \<noteq> None"
      by (auto simp: body_inv_def split: option.splits)
    from assms(2) False cs nul have
      "(if Suc (s_cursor st) = length (p_close t)
            then dn \<and> xml_tag_complete (st\<lparr>s_cursor := Suc (s_cursor st)\<rparr>) t = Inr st2
            else \<not> dn \<and> st2 = st\<lparr>s_cursor := Suc (s_cursor st)\<rparr>)"
      by (auto simp: xml_tag_match_def Let_def split: if_splits sum.splits)
    with assms(1) pre kn show ?thesis by (intro exI[of _ st]) simp
  qed
qed


lemma body_inv_cursor:
  assumes "body_inv st t c" "e_key (s_heap st ! c) \<noteq> None" "k < length (p_close t)"
  shows "body_inv (st\<lparr>s_cursor := k\<rparr>) t c"
    and "key_text (st\<lparr>s_cursor := k\<rparr>) t c = key_text st t c"
  using assms by (auto simp: body_inv_def key_text_def split: option.splits)

lemma tag_body_text:
  assumes "body_inv st t c" and "xml_parse_tag_body st d = Inr (st', r)"
  shows "(r = [] \<and> body_more st t c d st') \<or> (\<exists>u. d = u @ r \<and> body_done st t c u st')"
  using assms
proof (induction "2 * length d + (if s_cursor st = 0 then 0 else 1)" arbitrary: st d
         rule: less_induct)
  case less
  note inv = less.prems(1) and run = less.prems(2)
  from inv have t: "s_tag st = Some t" and tt: "t \<in> set xml_tag_patterns"
    and cs: "s_cursor st < length (p_close t)"
    and cu: "s_current st = Some c" and cl: "c < length (s_heap st)"
    by (simp_all add: body_inv_def)
  let ?cl = "p_close t"
  show ?case
  proof (cases "d = []")
    case True
    with run have "st' = st" "r = []" by (simp_all add: tag_body_Nil)
    with True inv show ?thesis by (simp add: body_more_def)
  next
    case dne: False
    show ?thesis
    proof (cases "s_cursor st = 0")
      case c0: True
      let ?P = "\<lambda>x. x \<noteq> rdc ?cl 0"
      have hd0: "rdc ?cl 0 = hd ?cl" "take 1 ?cl = [hd ?cl]"
        using pattern_facts(2)[OF tt] by (cases ?cl; simp add: rdc_def)+
      show ?thesis
      proof (cases "length (takeWhile ?P d) < length d")
        case found: True
        then have dw: "dropWhile ?P d \<noteq> []" by (metis takeWhile_dropWhile_id append_Nil2 less_irrefl)
        then have hdw: "hd (dropWhile ?P d) = hd ?cl" using hd_dropWhile[of ?P d] hd0 by simp
        define pre where "pre = takeWhile ?P d"
        define rest where "rest = tl (dropWhile ?P d)"
        have "d = takeWhile ?P d @ dropWhile ?P d" by simp
        also have "dropWhile ?P d = hd ?cl # rest"
          using dw hdw unfolding rest_def by (cases "dropWhile ?P d") auto
        finally have dsplit: "d = pre @ hd ?cl # rest" unfolding pre_def .
        have body_eq: "xml_parse_tag_body st d =
           (case xml_tag_match st t pre of
              Inl x \<Rightarrow> Inl x
            | Inr (st1, done) \<Rightarrow>
                if done then Inr (st1, rest) else xml_parse_tag_body st1 rest)"
          unfolding pre_def rest_def by (rule tag_body_found[OF t c0 found])
        from run obtain st2 dn where
          m: "xml_tag_match st t pre = Inr (st2, dn)"
          and cont: "if dn then st' = st2 \<and> r = rest else xml_parse_tag_body st2 rest = Inr (st', r)"
          unfolding body_eq by (cases "xml_tag_match st t pre") (auto split: if_splits)
        from tag_match_body_inv[OF inv m, unfolded c0] obtain st1 where
          i1: "body_inv st1 t c" and k1: "key_text st1 t c = key_text st t c @ pre"
          and c1: "s_cursor st1 = 0" and p1: "s_parser st1 = s_parser st"
          and kn1: "e_key (s_heap st1 ! c) \<noteq> None"
          and alt: "if Suc 0 = length ?cl
            then dn \<and> xml_tag_complete (st1\<lparr>s_cursor := Suc 0\<rparr>) t = Inr st2
            else \<not> dn \<and> st2 = st1\<lparr>s_cursor := Suc 0\<rparr>"
          by auto
        show ?thesis
        proof (cases "Suc 0 = length ?cl")
          case one: True
          with alt cont have dn: dn and cmp: "xml_tag_complete (st1\<lparr>s_cursor := Suc 0\<rparr>) t = Inr st'"
            and r: "r = rest" by auto
          from one have cl1: "?cl = [hd ?cl]" by (cases ?cl) auto
          from i1 kn1 obtain w where w: "e_key (s_heap st1 ! c) = Some w" "s_length st1 = length w"
            by (auto simp: body_inv_def split: option.splits)
          from i1 have f1: "s_tag st1 = Some t" "s_current st1 = Some c" "c < length (s_heap st1)"
            by (simp_all add: body_inv_def)
          from tag_complete_raw[of "st1\<lparr>s_cursor := Suc 0\<rparr>" t c w st'] f1 tt w one cmp
          obtain sr where sr: "e_key (s_heap sr ! c) = Some (w @ butlast ?cl)"
            "s_current sr = Some c" "c < length (s_heap sr)" "s_tag sr = Some t"
            "xml_tag_finish sr t = Inr st'" by auto
          from w k1 have "w = key_text st t c @ pre" by (simp add: key_text_def)
          with sr c0 cl1 have "body_done st t c (pre @ [hd ?cl]) st'"
            unfolding body_done_def
            by (intro exI[of _ pre] exI[of _ sr]) simp
          moreover have "d = (pre @ [hd ?cl]) @ r" using r by (subst dsplit) simp
          ultimately show ?thesis by blast
        next
          case more: False
          with alt cont have st2: "st2 = st1\<lparr>s_cursor := Suc 0\<rparr>"
            and run2: "xml_parse_tag_body st2 rest = Inr (st', r)" by auto
          from more pattern_facts(2)[OF tt] have l1: "Suc 0 < length ?cl"
            by (cases ?cl) auto
          note i2 = body_inv_cursor[OF i1 kn1 l1]
          have "length rest < length d" by (subst dsplit) simp
          then have "2 * length rest + (if s_cursor st2 = 0 then 0 else 1)
                < 2 * length d + (if s_cursor st = 0 then 0 else 1)"
            by (simp add: st2 c0)
          from less.hyps[OF this _ run2] i2(1) st2
          have ih: "(r = [] \<and> body_more st2 t c rest st') \<or>
                    (\<exists>u. rest = u @ r \<and> body_done st2 t c u st')" by simp
          have k2: "key_text st2 t c = key_text st t c @ pre" and cur2: "s_cursor st2 = Suc 0"
            and par2: "s_parser st2 = s_parser st"
            using i2(2) k1 st2 p1 by simp_all
          from ih show ?thesis
          proof
            assume a: "r = [] \<and> body_more st2 t c rest st'"
            then obtain g where g: "key_text st' t c = key_text st2 t c @ g"
              "g @ take (s_cursor st') ?cl = take (s_cursor st2) ?cl @ rest"
              and i': "body_inv st' t c" and p': "s_parser st' = s_parser st2"
              by (auto simp: body_more_def)
            have "key_text st' t c = key_text st t c @ (pre @ g)" using g(1) k2 by simp
            moreover have "(pre @ g) @ take (s_cursor st') ?cl = take (s_cursor st) ?cl @ d"
              using g(2) cur2 c0 hd0(2) by (subst dsplit) simp
            ultimately have "body_more st t c d st'"
              unfolding body_more_def using i' p' par2
              by (intro conjI exI[of _ "pre @ g"]) simp_all
            with a show ?thesis by simp
          next
            assume "\<exists>u. rest = u @ r \<and> body_done st2 t c u st'"
            then obtain u v sr where u: "rest = u @ r"
              and v: "take (s_cursor st2) ?cl @ u = v @ ?cl"
              and sr: "e_key (s_heap sr ! c) = Some (key_text st2 t c @ v @ butlast ?cl)"
                "s_current sr = Some c" "c < length (s_heap sr)" "s_tag sr = Some t"
                "xml_tag_finish sr t = Inr st'"
              by (auto simp: body_done_def)
            have v': "take (s_cursor st) ?cl @ (pre @ hd ?cl # u) = (pre @ v) @ ?cl"
              using v cur2 c0 hd0(2) by simp
            have "e_key (s_heap sr ! c) = Some (key_text st t c @ (pre @ v) @ butlast ?cl)"
              using sr(1) k2 by simp
            with v' sr have "body_done st t c (pre @ hd ?cl # u) st'"
              unfolding body_done_def by (intro exI[of _ "pre @ v"] exI[of _ sr]) simp
            moreover have "d = (pre @ hd ?cl # u) @ r" using u by (subst dsplit) simp
            ultimately show ?thesis by blast
          qed
        qed
      next
        case nf: False
        with run dne t c0 obtain st1 where k: "xml_key_append st d = Inr st1"
          and res: "st' = st1" "r = []"
          by (cases "xml_key_append st d") (auto simp: tag_body_rest)
        note ka = key_append_body_inv[OF inv k]
        have "body_more st t c d st'"
          unfolding body_more_def using ka res c0 by simp
        with res show ?thesis by simp
      qed
    next
      case cn: False
      from dne obtain x d1 where d: "d = x # d1" by (cases d) auto
      from cs have cle: "s_cursor st \<le> length ?cl" by simp
      from cn inv have kn: "e_key (s_heap st ! c) \<noteq> None"
        by (auto simp: body_inv_def split: option.splits)
      have tk: "take (Suc (s_cursor st)) ?cl = take (s_cursor st) ?cl @ [rdc ?cl (s_cursor st)]"
        using cs by (simp add: take_Suc_conv_app_nth rdc_def)
      show ?thesis
      proof (cases "rdc ?cl (s_cursor st) = x")
        case mt: True
        from run t cn cle mt d obtain st2 dn where
          m: "xml_tag_match st t [] = Inr (st2, dn)"
          and cont: "if dn then st' = st2 \<and> r = d1 else xml_parse_tag_body st2 d1 = Inr (st', r)"
          by (cases "xml_tag_match st t []") (auto simp: tag_body_cursor_match split: if_splits)
        from tag_match_body_inv[OF inv m] obtain st1 where
          i1: "body_inv st1 t c" and k1: "key_text st1 t c = key_text st t c"
          and c1: "s_cursor st1 = s_cursor st" and p1: "s_parser st1 = s_parser st"
          and kn1: "e_key (s_heap st1 ! c) \<noteq> None"
          and alt: "if Suc (s_cursor st) = length ?cl
            then dn \<and> xml_tag_complete (st1\<lparr>s_cursor := Suc (s_cursor st)\<rparr>) t = Inr st2
            else \<not> dn \<and> st2 = st1\<lparr>s_cursor := Suc (s_cursor st)\<rparr>"
          by auto
        show ?thesis
        proof (cases "Suc (s_cursor st) = length ?cl")
          case fin: True
          with alt cont have cmp: "xml_tag_complete (st1\<lparr>s_cursor := Suc (s_cursor st)\<rparr>) t = Inr st'"
            and r: "r = d1" by auto
          from i1 kn1 obtain w where w: "e_key (s_heap st1 ! c) = Some w" "s_length st1 = length w"
            by (auto simp: body_inv_def split: option.splits)
          from i1 have f1: "s_tag st1 = Some t" "s_current st1 = Some c" "c < length (s_heap st1)"
            by (simp_all add: body_inv_def)
          from tag_complete_raw[of "st1\<lparr>s_cursor := Suc (s_cursor st)\<rparr>" t c w st'] f1 tt w fin cmp
          obtain sr where sr: "e_key (s_heap sr ! c) = Some (w @ butlast ?cl)"
            "s_current sr = Some c" "c < length (s_heap sr)" "s_tag sr = Some t"
            "xml_tag_finish sr t = Inr st'" by auto
          from w k1 have wk: "w = key_text st t c" by (simp add: key_text_def)
          have "take (s_cursor st) ?cl @ [x] = [] @ ?cl"
            using tk mt fin by simp
          with sr wk have "body_done st t c [x] st'"
            unfolding body_done_def by (intro exI[of _ "[]"] exI[of _ sr]) simp
          with d r show ?thesis by auto
        next
          case more: False
          with alt cont have st2: "st2 = st1\<lparr>s_cursor := Suc (s_cursor st)\<rparr>"
            and run2: "xml_parse_tag_body st2 d1 = Inr (st', r)" by auto
          from more cs have l1: "Suc (s_cursor st) < length ?cl" by simp
          note i2 = body_inv_cursor[OF i1 kn1 l1]
          have "2 * length d1 + (if s_cursor st2 = 0 then 0 else 1)
                < 2 * length d + (if s_cursor st = 0 then 0 else 1)"
            by (simp add: st2 d)
          from less.hyps[OF this _ run2] i2(1) st2
          have ih: "(r = [] \<and> body_more st2 t c d1 st') \<or>
                    (\<exists>u. d1 = u @ r \<and> body_done st2 t c u st')" by simp
          have k2: "key_text st2 t c = key_text st t c"
            and cur2: "s_cursor st2 = Suc (s_cursor st)"
            and par2: "s_parser st2 = s_parser st"
            using i2(2) k1 st2 p1 by simp_all
          from ih show ?thesis
          proof
            assume a: "r = [] \<and> body_more st2 t c d1 st'"
            then obtain g where g: "key_text st' t c = key_text st2 t c @ g"
              "g @ take (s_cursor st') ?cl = take (s_cursor st2) ?cl @ d1"
              and i': "body_inv st' t c" and p': "s_parser st' = s_parser st2"
              by (auto simp: body_more_def)
            have "g @ take (s_cursor st') ?cl = take (s_cursor st) ?cl @ d"
              using g(2) cur2 tk mt d by simp
            with g(1) k2 i' p' par2 have "body_more st t c d st'"
              unfolding body_more_def by auto
            with a show ?thesis by simp
          next
            assume "\<exists>u. d1 = u @ r \<and> body_done st2 t c u st'"
            then obtain u v sr where u: "d1 = u @ r"
              and v: "take (s_cursor st2) ?cl @ u = v @ ?cl"
              and sr: "e_key (s_heap sr ! c) = Some (key_text st2 t c @ v @ butlast ?cl)"
                "s_current sr = Some c" "c < length (s_heap sr)" "s_tag sr = Some t"
                "xml_tag_finish sr t = Inr st'"
              by (auto simp: body_done_def)
            have "take (s_cursor st) ?cl @ (x # u) = v @ ?cl"
              using v cur2 tk mt by simp
            with sr k2 have "body_done st t c (x # u) st'"
              unfolding body_done_def by auto
            with d u show ?thesis by auto
          qed
        qed
      next
        case mm: False
        from run t cn cle mm d obtain st1 where
          k: "xml_key_append st (take (s_cursor st) ?cl) = Inr st1"
          and run2: "xml_parse_tag_body (st1\<lparr>s_cursor := 0\<rparr>) d = Inr (st', r)"
          by (cases "xml_key_append st (take (s_cursor st) ?cl)")
             (auto simp: tag_body_cursor_flush)
        note ka = key_append_body_inv[OF inv k]
        from pattern_facts(2)[OF tt] have l0: "0 < length ?cl" by simp
        note i2 = body_inv_cursor[OF ka(1) ka(5) l0]
        let ?st2 = "st1\<lparr>s_cursor := 0\<rparr>"
        have "2 * length d + (if s_cursor ?st2 = 0 then 0 else 1)
                < 2 * length d + (if s_cursor st = 0 then 0 else 1)"
          using cn by simp
        from less.hyps[OF this i2(1) run2]
        have ih: "(r = [] \<and> body_more ?st2 t c d st') \<or>
                    (\<exists>u. d = u @ r \<and> body_done ?st2 t c u st')" .
        have k2: "key_text ?st2 t c = key_text st t c @ take (s_cursor st) ?cl"
          using i2(2) ka(2) by simp
        have par2: "s_parser ?st2 = s_parser st" using ka(4) by simp
        from ih show ?thesis
        proof
          assume a: "r = [] \<and> body_more ?st2 t c d st'"
          then obtain g where g: "key_text st' t c = key_text ?st2 t c @ g"
            "g @ take (s_cursor st') ?cl = take (s_cursor ?st2) ?cl @ d"
            and i': "body_inv st' t c" and p': "s_parser st' = s_parser ?st2"
            by (auto simp: body_more_def)
          have "key_text st' t c = key_text st t c @ (take (s_cursor st) ?cl @ g)"
            using g(1) k2 by simp
          moreover have "(take (s_cursor st) ?cl @ g) @ take (s_cursor st') ?cl
               = take (s_cursor st) ?cl @ d"
            using g(2) by simp
          ultimately have "body_more st t c d st'"
            unfolding body_more_def using i' p' par2
            by (intro conjI exI[of _ "take (s_cursor st) (p_close t) @ g"]) simp_all
          with a show ?thesis by simp
        next
          assume "\<exists>u. d = u @ r \<and> body_done ?st2 t c u st'"
          then obtain u v sr where u: "d = u @ r"
            and v: "take (s_cursor ?st2) ?cl @ u = v @ ?cl"
            and sr: "e_key (s_heap sr ! c) = Some (key_text ?st2 t c @ v @ butlast ?cl)"
              "s_current sr = Some c" "c < length (s_heap sr)" "s_tag sr = Some t"
              "xml_tag_finish sr t = Inr st'"
            by (auto simp: body_done_def)
          have "take (s_cursor st) ?cl @ u = (take (s_cursor st) ?cl @ v) @ ?cl"
            using v by simp
          moreover have "e_key (s_heap sr ! c) =
              Some (key_text st t c @ (take (s_cursor st) ?cl @ v) @ butlast ?cl)"
            using sr(1) k2 by simp
          ultimately have "body_done st t c u st'"
            unfolding body_done_def using sr
            by (intro exI[of _ "take (s_cursor st) (p_close t) @ v"] exI[of _ sr]) simp
          with u show ?thesis by auto
        qed
      qed
    qed
  qed
qed


lemma tag_finish_other_key:
  assumes "p_type t \<noteq> TAG_ELEMENT_OPEN" and "xml_tag_finish sr t = Inr st'"
  shows "s_heap st' = s_heap sr"
  using assms
  by (auto simp: xml_tag_finish_def xml_close_element_def xml_close_tag_def
        split: option.splits if_splits)

lemma tag_finish_parser:
  assumes "xml_tag_finish sr t = Inr st'"
  shows "s_parser st' = Some Content"
  using assms
  by (auto simp: xml_tag_finish_def xml_close_tag_def split: sum.splits if_splits)

subsection \<open>Parsing in two chunks\<close>

lemma then_call_simps [simp]:
  "then_call (Inl x) f = Inl x" "then_call (Inr v) f = f v"
  by (simp_all add: then_call_def)

lemma string_append_twice:
  assumes "x \<noteq> []" and "dest = None \<longrightarrow> len = 0"
  shows "xml_string_append (fst (xml_string_append dest len x))
           (snd (xml_string_append dest len x)) y = xml_string_append dest len (x @ y)"
    and "fst (xml_string_append dest len x) \<noteq> None"
    and "snd (xml_string_append dest len x) = len + length x"
  using assms
  by (auto simp: xml_string_append_def split: option.splits)

lemma value_append_twice:
  assumes "dest_ok st e_value" and "x \<noteq> []" and "y \<noteq> []"
  shows "xml_value_append st (x @ y) =
           then_call (xml_value_append st x) (\<lambda>s. xml_value_append s y)"
proof (cases "s_length st = 0")
  case True
  show ?thesis
  proof (cases "xml_element_create st (s_current st)")
    case (Inl e)
    with True show ?thesis by (simp add: xml_value_append_def)
  next
    case (Inr p)
    then obtain st1 e where p: "p = (st1, e)" by (cases p) auto
    with Inr have h: "s_heap st1 ! e = new_element (s_current st)" "e < length (s_heap st1)"
      "s_length st1 = s_length st" "e = length (s_heap st)"
      by (auto simp: xml_element_create_def Let_def nth_append split: option.splits if_splits)
    with True Inr p assms(2,3) show ?thesis
      by (simp add: xml_value_append_def xml_string_append_def new_element_def Let_def)
  qed
next
  case False
  show ?thesis
  proof (cases "s_current st")
    case None
    with False show ?thesis by (simp add: xml_value_append_def)
  next
    case (Some c)
    show ?thesis
    proof (cases "c < length (s_heap st)")
      case True
      with assms(1) False Some obtain s where s: "e_value (s_heap st ! c) = Some s"
        by (auto simp: dest_ok_def)
      with False Some True assms(2,3) show ?thesis
        by (simp add: xml_value_append_def xml_string_append_def Let_def)
    next
      case nv: False
      with False Some show ?thesis by (simp add: xml_value_append_def)
    qed
  qed
qed

lemma value_append_ok:
  assumes "xml_value_append st x = Inr st1"
  shows "dest_ok st1 e_value" and "s_parser st1 = s_parser st"
  using assms
  by (auto simp: xml_value_append_def dest_ok_def xml_element_create_def Let_def
        split: option.splits if_splits sum.splits prod.splits)


lemma key_string_append_twice:
  assumes "dest_ok st e_key" and "x \<noteq> []"
  shows "key_string_append st (x @ y) =
           then_call (key_string_append st x) (\<lambda>s. key_string_append s y)"
proof (cases "s_current st")
  case None
  then show ?thesis by (simp add: key_string_append_def)
next
  case (Some c)
  show ?thesis
  proof (cases "c < length (s_heap st)")
    case False
    with Some show ?thesis by (simp add: key_string_append_def)
  next
    case True
    show ?thesis
    proof (cases "e_key (s_heap st ! c)")
      case None
      with assms(1) Some True have "s_length st = 0" by (auto simp: dest_ok_def)
      with None Some True assms(2) show ?thesis
        by (cases "y = []")
           (simp_all add: key_string_append_def xml_string_append_def Let_def)
    next
      case (Some k)
      with \<open>s_current st = Some c\<close> True assms(2) show ?thesis
        by (cases "y = []")
           (simp_all add: key_string_append_def xml_string_append_def Let_def)
    qed
  qed
qed

lemma key_string_append_ok:
  assumes "key_string_append st x = Inr st1"
  shows "dest_ok st1 e_key" and "s_parser st1 = s_parser st" and "s_tag st1 = s_tag st"
    and "s_cursor st1 = s_cursor st" and "s_current st1 = s_current st"
    and "s_length st1 = s_length st + length x" and "s_root st1 = s_root st"
  using assms
  by (auto simp: key_string_append_def dest_ok_def xml_string_append_def Let_def
        split: option.splits if_splits prod.splits)

lemma key_append_ok:
  assumes "xml_key_append st x = Inr st1"
  shows "dest_ok st e_key \<longrightarrow> dest_ok st1 e_key" and "s_parser st1 = s_parser st"
    and "s_tag st1 = s_tag st" and "s_cursor st1 = s_cursor st"
    and "s_current st1 = s_current st" and "s_root st1 = s_root st"
proof -
  from assms obtain c t where c: "s_current st = Some c" and t: "s_tag st = Some t"
    by (auto simp: xml_key_append_def split: option.splits)
  have "(dest_ok st e_key \<longrightarrow> dest_ok st1 e_key) \<and> s_parser st1 = s_parser st \<and>
    s_tag st1 = s_tag st \<and> s_cursor st1 = s_cursor st \<and>
    s_current st1 = s_current st \<and> s_root st1 = s_root st"
  proof (cases "p_type t = TAG_ELEMENT_CLOSE")
    case True
    with assms c t show ?thesis by (simp add: xml_key_append_def)
  next
    case ty: False
    show ?thesis
    proof (cases "s_length st = 0 \<and> p_open_len t > 1")
      case True
      with assms c t ty obtain st0 where
        a: "key_string_append st (take (p_open_len t - 1) (drop 1 (p_open t))) = Inr st0"
        and b: "key_string_append st0 x = Inr st1"
        by (auto simp: xml_key_append_def split: sum.splits)
      from key_string_append_ok[OF a] key_string_append_ok[OF b] show ?thesis by simp
    next
      case False
      with assms c t ty have b: "key_string_append st x = Inr st1"
        by (auto simp: xml_key_append_def split: sum.splits)
      from key_string_append_ok[OF b] show ?thesis by simp
    qed
  qed
  then show "dest_ok st e_key \<longrightarrow> dest_ok st1 e_key" and "s_parser st1 = s_parser st"
    and "s_tag st1 = s_tag st" and "s_cursor st1 = s_cursor st"
    and "s_current st1 = s_current st" and "s_root st1 = s_root st"
    by simp_all
qed

lemma key_append_plain:
  assumes "s_current st = Some c" "s_tag st = Some t" "p_type t \<noteq> TAG_ELEMENT_CLOSE"
    and "s_length st \<noteq> 0 \<or> p_open_len t \<le> 1"
  shows "xml_key_append st x = key_string_append st x"
  using assms by (auto simp: xml_key_append_def split: sum.splits)

lemma key_append_first:
  assumes "s_current st = Some c" "s_tag st = Some t" "p_type t \<noteq> TAG_ELEMENT_CLOSE"
    and "s_length st = 0" "p_open_len t > 1"
  shows "xml_key_append st x =
           then_call (key_string_append st (take (p_open_len t - 1) (drop 1 (p_open t))))
             (\<lambda>s. key_string_append s x)"
  using assms by (auto simp: xml_key_append_def then_call_def split: sum.splits)

lemma key_append_twice:
  assumes "dest_ok st e_key" and "x \<noteq> []"
  shows "xml_key_append st (x @ y) =
           then_call (xml_key_append st x) (\<lambda>s. xml_key_append s y)"
proof (cases "s_current st")
  case None
  then show ?thesis by (simp add: xml_key_append_def)
next
  case (Some c)
  show ?thesis
  proof (cases "s_tag st")
    case None
    with Some show ?thesis by (simp add: xml_key_append_def)
  next
    case t: (Some t)
    show ?thesis
    proof (cases "p_type t = TAG_ELEMENT_CLOSE")
      case True
      with Some t show ?thesis by (simp add: xml_key_append_def)
    next
      case ty: False
      let ?op = "take (p_open_len t - 1) (drop 1 (p_open t))"
      have second: "xml_key_append s1 y = key_string_append s1 y"
        if "key_string_append s0 x = Inr s1" "s_current s0 = Some c" "s_tag s0 = Some t"
        for s0 s1
      proof -
        note ok1 = key_string_append_ok[OF that(1)]
        from ok1 assms(2) have "s_length s1 \<noteq> 0" by simp
        with ok1 that ty show ?thesis by (intro key_append_plain[where c = c and t = t]) simp_all
      qed
      show ?thesis
      proof (cases "s_length st = 0 \<and> p_open_len t > 1")
        case True
        note first = key_append_first[OF Some t ty, of _] 
        show ?thesis
        proof (cases "key_string_append st ?op")
          case (Inl e)
          with True first show ?thesis by simp
        next
          case (Inr st0)
          note ok = key_string_append_ok[OF Inr]
          from key_string_append_twice[OF ok(1) assms(2), of y]
          have tw: "key_string_append st0 (x @ y) =
             then_call (key_string_append st0 x) (\<lambda>s. key_string_append s y)" .
          show ?thesis
          proof (cases "key_string_append st0 x")
            case e: (Inl e)
            with True first Inr tw show ?thesis by simp
          next
            case r: (Inr s1)
            from second[OF r] ok Some t have "xml_key_append s1 y = key_string_append s1 y"
              by simp
            with True first Inr tw r show ?thesis by simp
          qed
        qed
      next
        case False
        then have pl: "s_length st \<noteq> 0 \<or> p_open_len t \<le> 1" by auto
        note plain = key_append_plain[OF Some t ty pl]
        from key_string_append_twice[OF assms, of y]
        have tw: "key_string_append st (x @ y) =
             then_call (key_string_append st x) (\<lambda>s. key_string_append s y)" .
        show ?thesis
        proof (cases "key_string_append st x")
          case e: (Inl e)
          with plain tw show ?thesis by simp
        next
          case r: (Inr s1)
          from second[OF r Some t] plain tw r show ?thesis by simp
        qed
      qed
    qed
  qed
qed


lemma close_element_ok:
  assumes "xml_close_element st = Inr st1"
  shows "s_root st1 = s_root st" "s_heap st1 = s_heap st" "s_parser st1 = s_parser st"
    "s_length st1 = s_length st" "s_tag st1 = s_tag st"
  using assms by (auto simp: xml_close_element_def split: option.splits if_splits)

lemma parse_tag_name_ok:
  assumes "xml_parse_tag_name st = Inr st1"
  shows "s_root st1 = s_root st" "s_current st1 = s_current st"
  using assms
  by (auto simp: xml_parse_tag_name_def Let_def
        split: option.splits if_splits sum.splits prod.splits)

lemma tag_finish_ok:
  assumes "xml_tag_finish st t = Inr st1"
  shows "s_parser st1 = Some Content" "s_length st1 = 0" "s_root st1 = s_root st"
    "s_cursor st1 = 0" "s_tag st1 = None"
proof -
  from assms obtain st2 st3 where
    a: "(if p_type t = TAG_ELEMENT_OPEN then xml_parse_tag_name st else Inr st) = Inr st2"
    and b: "(if p_type t \<noteq> TAG_ELEMENT_OPEN \<or> s_empty st2
                then xml_close_element st2 else Inr st2) = Inr st3"
    and c: "st1 = xml_close_tag st3"
    by (auto simp: xml_tag_finish_def split: sum.splits)
  from a have r2: "s_root st2 = s_root st"
    by (auto split: if_splits dest: parse_tag_name_ok)
  from b have r3: "s_root st3 = s_root st2"
    by (auto split: if_splits dest: close_element_ok)
  from c r2 r3 show "s_parser st1 = Some Content" "s_length st1 = 0" "s_root st1 = s_root st"
    "s_cursor st1 = 0" "s_tag st1 = None"
    by (simp_all add: xml_close_tag_def)
qed

lemma tag_complete_ok:
  assumes "xml_tag_complete st t = Inr st1"
  shows "s_parser st1 = Some Content" "s_length st1 = 0" "s_root st1 = s_root st"
    "s_cursor st1 = 0" "s_tag st1 = None"
proof -
  from assms obtain st0 where
    a: "(if s_cursor st > 1 then key_string_append st (take (s_cursor st - 1) (p_close t))
         else Inr st) = Inr st0"
    and b: "xml_tag_finish st0 t = Inr st1"
    by (auto simp: xml_tag_complete_def split: sum.splits)
  from a have "s_root st0 = s_root st"
    by (auto split: if_splits dest: key_string_append_ok)
  with tag_finish_ok[OF b] show "s_parser st1 = Some Content" "s_length st1 = 0"
    "s_root st1 = s_root st" "s_cursor st1 = 0" "s_tag st1 = None"
    by simp_all
qed

lemma tag_match_ok:
  assumes "xml_tag_match st t pre = Inr (st2, dn)"
  shows "s_root st2 = s_root st"
    and "dn \<longrightarrow> s_parser st2 = Some Content \<and> s_length st2 = 0"
    and "\<not> dn \<longrightarrow> s_parser st2 = s_parser st \<and> s_tag st2 = s_tag st \<and>
           s_cursor st2 = Suc (s_cursor st) \<and> (dest_ok st e_key \<longrightarrow> dest_ok st2 e_key)"
proof -
  from assms obtain st1 where
    a: "(if s_cursor st = 0 then xml_key_append st pre else Inr st) = Inr st1"
    by (auto simp: xml_tag_match_def split: sum.splits)
  then have f: "s_root st1 = s_root st" "s_parser st1 = s_parser st" "s_tag st1 = s_tag st"
    "s_cursor st1 = s_cursor st" "dest_ok st e_key \<longrightarrow> dest_ok st1 e_key"
    by (auto split: if_splits dest: key_append_ok)
  have d: "dest_ok (st1\<lparr>s_cursor := k\<rparr>) e_key = dest_ok st1 e_key" for k
    by (simp add: dest_ok_def split: option.splits)
  from assms a f d show "s_root st2 = s_root st"
    and "dn \<longrightarrow> s_parser st2 = Some Content \<and> s_length st2 = 0"
    and "\<not> dn \<longrightarrow> s_parser st2 = s_parser st \<and> s_tag st2 = s_tag st \<and>
           s_cursor st2 = Suc (s_cursor st) \<and> (dest_ok st e_key \<longrightarrow> dest_ok st2 e_key)"
    by (auto simp: xml_tag_match_def Let_def split: if_splits sum.splits
          dest: tag_complete_ok)
qed

lemma tag_match_append:
  assumes "dest_ok st e_key" and "a \<noteq> []" and "s_cursor st = 0"
  shows "xml_tag_match st t (a @ y) =
           then_call (xml_key_append st a) (\<lambda>s. xml_tag_match s t y)"
proof (cases "xml_key_append st a")
  case (Inl e)
  with assms key_append_twice[OF assms(1,2), of y] show ?thesis
    by (simp add: xml_tag_match_def)
next
  case (Inr s1)
  from key_append_ok[OF Inr] assms(3) have "s_cursor s1 = 0" by simp
  with Inr assms key_append_twice[OF assms(1,2), of y] show ?thesis
    by (simp add: xml_tag_match_def)
qed


lemma takeWhile_short: "length (takeWhile P a) < length a \<Longrightarrow> \<exists>x\<in>set a. \<not> P x"
  by (induction a) (auto split: if_splits)

lemma takeWhile_full: "\<not> length (takeWhile P a) < length a \<Longrightarrow> \<forall>x\<in>set a. P x"
  by (induction a) (auto split: if_splits)

lemma tag_body_append:
  assumes "dest_ok st e_key" and "s_parser st = Some TagBody"
  shows "xml_parse_tag_body st (a @ b) =
           then_call (xml_parse_tag_body st a)
             (\<lambda>(st1, a1). if s_parser st1 = Some TagBody then xml_parse_tag_body st1 b
                          else Inr (st1, a1 @ b))"
  using assms
proof (induction "2 * length a + (if s_cursor st = 0 then 0 else 1)" arbitrary: st a
         rule: less_induct)
  case less
  note ok = less.prems(1) and pb = less.prems(2)
  let ?K = "\<lambda>(st1, a1). if s_parser st1 = Some TagBody then xml_parse_tag_body st1 b
                          else Inr (st1, a1 @ b)"
  show ?case
  proof (cases "a = []")
    case True
    with pb show ?thesis by (simp add: tag_body_Nil)
  next
    case ane: False
    show ?thesis
    proof (cases "s_tag st")
      case None
      with ane show ?thesis by (simp add: tag_body_no_tag)
    next
      case (Some t)
      let ?P = "\<lambda>x. x \<noteq> rdc (p_close t) 0"
      show ?thesis
      proof (cases "s_cursor st = 0")
        case c0: True
        show ?thesis
        proof (cases "length (takeWhile ?P a) < length a")
          case found: True
          then have ex: "\<exists>x\<in>set a. \<not> ?P x"
            by (rule takeWhile_short)
          then have dwa: "dropWhile ?P a \<noteq> []" by (simp add: dropWhile_eq_Nil_conv)
          from ex have tw: "takeWhile ?P (a @ b) = takeWhile ?P a"
            by (auto simp: takeWhile_append1)
          from ex have dw: "dropWhile ?P (a @ b) = dropWhile ?P a @ b"
            by (auto simp: dropWhile_append1)
          from dwa dw have tdw: "tl (dropWhile ?P (a @ b)) = tl (dropWhile ?P a) @ b"
            by simp
          from found tw have found2: "length (takeWhile ?P (a @ b)) < length (a @ b)" by simp
          define pre where "pre = takeWhile ?P a"
          define rest where "rest = tl (dropWhile ?P a)"
          have rl: "length rest < length a"
            unfolding rest_def using dwa length_dropWhile_le[of ?P a]
            by (cases "dropWhile ?P a") auto
          have e1: "xml_parse_tag_body st a =
             (case xml_tag_match st t pre of
                Inl x \<Rightarrow> Inl x
              | Inr (st1, done) \<Rightarrow>
                  if done then Inr (st1, rest) else xml_parse_tag_body st1 rest)"
            unfolding pre_def rest_def by (rule tag_body_found[OF Some c0 found])
          have e2: "xml_parse_tag_body st (a @ b) =
             (case xml_tag_match st t pre of
                Inl x \<Rightarrow> Inl x
              | Inr (st1, done) \<Rightarrow>
                  if done then Inr (st1, rest @ b) else xml_parse_tag_body st1 (rest @ b))"
            unfolding pre_def rest_def
            using tag_body_found[OF Some c0 found2] by (simp only: tw tdw)
          show ?thesis
          proof (cases "xml_tag_match st t pre")
            case (Inl e)
            with e1 e2 show ?thesis by simp
          next
            case (Inr p)
            then obtain st2 dn where m: "xml_tag_match st t pre = Inr (st2, dn)"
              by (cases p) auto
            note mo = tag_match_ok[OF m]
            show ?thesis
            proof (cases dn)
              case True
              with mo(2) have "s_parser st2 = Some Content" by simp
              with e1 e2 m True show ?thesis by simp
            next
              case False
              with mo(3) ok pb c0 have i2: "dest_ok st2 e_key" "s_parser st2 = Some TagBody"
                by simp_all
              have "2 * length rest + (if s_cursor st2 = 0 then 0 else 1)
                  < 2 * length a + (if s_cursor st = 0 then 0 else 1)"
                using rl by (simp split: if_splits)
              from less.hyps[OF this i2] e1 e2 m False show ?thesis by simp
            qed
          qed
        next
          case nf: False
          then have all: "\<forall>x\<in>set a. ?P x"
            by (rule takeWhile_full)
          then have tw: "takeWhile ?P (a @ b) = a @ takeWhile ?P b"
            by (simp add: takeWhile_append2)
          from all have dw: "dropWhile ?P (a @ b) = dropWhile ?P b"
            by (simp add: dropWhile_append2)
          have e1: "xml_parse_tag_body st a =
             (case xml_key_append st a of Inl x \<Rightarrow> Inl x | Inr st1 \<Rightarrow> Inr (st1, []))"
            by (rule tag_body_rest[OF ane Some c0 nf])
          show ?thesis
          proof (cases "b = []")
            case True
            show ?thesis
            proof (cases "xml_key_append st a")
              case (Inl e)
              with e1 True show ?thesis by simp
            next
              case (Inr s1)
              with e1 True show ?thesis by (simp add: tag_body_Nil)
            qed
          next
            case bne: False
            show ?thesis
            proof (cases "xml_key_append st a")
              case (Inl e)
              have "xml_parse_tag_body st (a @ b) = Inl e"
              proof (cases "length (takeWhile ?P (a @ b)) < length (a @ b)")
                case True
                from tag_body_found[OF Some c0 True, unfolded tw dw]
                  tag_match_append[OF ok ane c0, of t "takeWhile ?P b"] Inl
                show ?thesis by simp
              next
                case False
                from tag_body_rest[OF _ Some c0 False] ane
                  key_append_twice[OF ok ane, of b] Inl
                show ?thesis by simp
              qed
              with e1 Inl show ?thesis by simp
            next
              case (Inr s1)
              note ko = key_append_ok[OF Inr]
              from ko Some c0 have s1: "s_tag s1 = Some t" "s_cursor s1 = 0" by simp_all
              from ko pb have p1: "s_parser s1 = Some TagBody" by simp
              have "xml_parse_tag_body st (a @ b) = xml_parse_tag_body s1 b"
              proof (cases "length (takeWhile ?P b) < length b")
                case True
                with tw have f2: "length (takeWhile ?P (a @ b)) < length (a @ b)" by simp
                from tag_body_found[OF Some c0 f2, unfolded tw dw] tag_body_found[OF s1 True]
                  tag_match_append[OF ok ane c0, of t "takeWhile ?P b"] Inr
                show ?thesis by simp
              next
                case False
                with tw have f2: "\<not> length (takeWhile ?P (a @ b)) < length (a @ b)" by simp
                from tag_body_rest[OF _ Some c0 f2] tag_body_rest[OF bne s1 False] ane
                  key_append_twice[OF ok ane, of b] Inr
                show ?thesis by simp
              qed
              with e1 Inr p1 show ?thesis by simp
            qed
          qed
        qed
      next
        case cn: False
        from ane obtain x a1 where a: "a = x # a1" by (cases a) auto
        show ?thesis
        proof (cases "s_cursor st > length (p_close t)")
          case True
          with Some cn a show ?thesis by (simp add: tag_body_cursor_fault)
        next
          case False
          then have cle: "s_cursor st \<le> length (p_close t)" by simp
          show ?thesis
          proof (cases "rdc (p_close t) (s_cursor st) = x")
            case mt: True
            note e1 = tag_body_cursor_match[OF Some cn cle mt, of a1]
            note e2 = tag_body_cursor_match[OF Some cn cle mt, of "a1 @ b"]
            show ?thesis
            proof (cases "xml_tag_match st t []")
              case (Inl e)
              with e1 e2 a show ?thesis by simp
            next
              case (Inr p)
              then obtain st2 dn where m: "xml_tag_match st t [] = Inr (st2, dn)"
                by (cases p) auto
              note mo = tag_match_ok[OF m]
              show ?thesis
              proof (cases dn)
                case True
                with mo(2) have "s_parser st2 = Some Content" by simp
                with e1 e2 m True a show ?thesis by simp
              next
                case dnf: False
                with mo(3) ok pb have i2: "dest_ok st2 e_key" "s_parser st2 = Some TagBody"
                  by simp_all
                have "2 * length a1 + (if s_cursor st2 = 0 then 0 else 1)
                    < 2 * length a + (if s_cursor st = 0 then 0 else 1)"
                  using a by (simp split: if_splits)
                from less.hyps[OF this i2] e1 e2 m dnf a show ?thesis by simp
              qed
            qed
          next
            case mm: False
            note e1 = tag_body_cursor_flush[OF Some cn cle mm, of a1]
            note e2 = tag_body_cursor_flush[OF Some cn cle mm, of "a1 @ b"]
            show ?thesis
            proof (cases "xml_key_append st (take (s_cursor st) (p_close t))")
              case (Inl e)
              with e1 e2 a show ?thesis by simp
            next
              case (Inr s1)
              note ko = key_append_ok[OF Inr]
              have d: "dest_ok (s1\<lparr>s_cursor := 0\<rparr>) e_key = dest_ok s1 e_key"
                by (simp add: dest_ok_def split: option.splits)
              from ko ok pb d have i2: "dest_ok (s1\<lparr>s_cursor := 0\<rparr>) e_key"
                "s_parser (s1\<lparr>s_cursor := 0\<rparr>) = Some TagBody" by simp_all
              have "2 * length a + (if s_cursor (s1\<lparr>s_cursor := 0\<rparr>) = 0 then 0 else 1)
                    < 2 * length a + (if s_cursor st = 0 then 0 else 1)"
                using cn by simp
              from less.hyps[OF this i2] e1 e2 Inr a show ?thesis by simp
            qed
          qed
        qed
      qed
    qed
  qed
qed


lemma tag_body_preserves:
  assumes "Q st"
    and ka: "\<And>s x s'. Q s \<Longrightarrow> xml_key_append s x = Inr s' \<Longrightarrow> Q s'"
    and tm: "\<And>s t pre s' dn. Q s \<Longrightarrow> xml_tag_match s t pre = Inr (s', dn) \<Longrightarrow>
               (if dn then R s' else Q s')"
    and cz: "\<And>s. Q s \<Longrightarrow> Q (s\<lparr>s_cursor := 0\<rparr>)"
    and "xml_parse_tag_body st a = Inr (st1, a1)"
  shows "(Q st1 \<and> a1 = []) \<or> R st1"
  using assms(1,5)
proof (induction "2 * length a + (if s_cursor st = 0 then 0 else 1)" arbitrary: st a
         rule: less_induct)
  case less
  note q = less.prems(1) and run = less.prems(2)
  show ?case
  proof (cases "a = []")
    case True
    with run q show ?thesis by (simp add: tag_body_Nil)
  next
    case ane: False
    from run ane obtain t where t: "s_tag st = Some t"
      by (cases "s_tag st") (auto simp: tag_body_no_tag)
    let ?P = "\<lambda>x. x \<noteq> rdc (p_close t) 0"
    show ?thesis
    proof (cases "s_cursor st = 0")
      case c0: True
      show ?thesis
      proof (cases "length (takeWhile ?P a) < length a")
        case found: True
        then have "dropWhile ?P a \<noteq> []"
          using takeWhile_short[OF found] by (simp add: dropWhile_eq_Nil_conv)
        then have rl: "length (tl (dropWhile ?P a)) < length a"
          using length_dropWhile_le[of ?P a] by (cases "dropWhile ?P a") auto
        from run tag_body_found[OF t c0 found] obtain st2 dn where
          m: "xml_tag_match st t (takeWhile ?P a) = Inr (st2, dn)"
          and cont: "if dn then st1 = st2 \<and> a1 = tl (dropWhile ?P a)
                     else xml_parse_tag_body st2 (tl (dropWhile ?P a)) = Inr (st1, a1)"
          by (cases "xml_tag_match st t (takeWhile ?P a)") (auto split: if_splits)
        show ?thesis
        proof (cases dn)
          case True
          with tm[OF q m] cont show ?thesis by simp
        next
          case False
          with tm[OF q m] have q2: "Q st2" by simp
          have "2 * length (tl (dropWhile ?P a)) + (if s_cursor st2 = 0 then 0 else 1)
                  < 2 * length a + (if s_cursor st = 0 then 0 else 1)"
            using rl by (simp split: if_splits)
          from less.hyps[OF this q2] cont False show ?thesis by simp
        qed
      next
        case nf: False
        from run tag_body_rest[OF ane t c0 nf] obtain s1 where
          "xml_key_append st a = Inr s1" "st1 = s1" "a1 = []"
          by (cases "xml_key_append st a") auto
        with ka[OF q] show ?thesis by simp
      qed
    next
      case cn: False
      from ane obtain x a2 where a: "a = x # a2" by (cases a) auto
      from run t cn a have cle: "s_cursor st \<le> length (p_close t)"
        by (cases "s_cursor st > length (p_close t)") (auto simp: tag_body_cursor_fault)
      show ?thesis
      proof (cases "rdc (p_close t) (s_cursor st) = x")
        case mt: True
        from run a tag_body_cursor_match[OF t cn cle mt, of a2] obtain st2 dn where
          m: "xml_tag_match st t [] = Inr (st2, dn)"
          and cont: "if dn then st1 = st2 \<and> a1 = a2
                     else xml_parse_tag_body st2 a2 = Inr (st1, a1)"
          by (cases "xml_tag_match st t []") (auto split: if_splits)
        show ?thesis
        proof (cases dn)
          case True
          with tm[OF q m] cont show ?thesis by simp
        next
          case False
          with tm[OF q m] have q2: "Q st2" by simp
          have "2 * length a2 + (if s_cursor st2 = 0 then 0 else 1)
                  < 2 * length a + (if s_cursor st = 0 then 0 else 1)"
            using a by (simp split: if_splits)
          from less.hyps[OF this q2] cont False show ?thesis by simp
        qed
      next
        case mm: False
        from run a tag_body_cursor_flush[OF t cn cle mm, of a2] obtain s1 where
          k: "xml_key_append st (take (s_cursor st) (p_close t)) = Inr s1"
          and run2: "xml_parse_tag_body (s1\<lparr>s_cursor := 0\<rparr>) a = Inr (st1, a1)"
          by (cases "xml_key_append st (take (s_cursor st) (p_close t))") auto
        have q2: "Q (s1\<lparr>s_cursor := 0\<rparr>)" by (rule cz[OF ka[OF q k]])
        have "2 * length a + (if s_cursor (s1\<lparr>s_cursor := 0\<rparr>) = 0 then 0 else 1)
                    < 2 * length a + (if s_cursor st = 0 then 0 else 1)"
          using cn by simp
        from less.hyps[OF this q2 run2] show ?thesis .
      qed
    qed
  qed
qed

lemma dest_ok_cursor [simp]: "dest_ok (s\<lparr>s_cursor := k\<rparr>) sel = dest_ok s sel"
  by (simp add: dest_ok_def split: option.splits)

lemma tag_body_ok:
  assumes "s_parser st = Some TagBody" and "dest_ok st e_key"
    and "xml_parse_tag_body st a = Inr (st1, a1)"
  shows "s_root st1 = s_root st"
    and "(s_parser st1 = Some TagBody \<and> dest_ok st1 e_key \<and> a1 = []) \<or>
         (s_parser st1 = Some Content \<and> s_length st1 = 0)"
proof -
  let ?Q = "\<lambda>s. s_root s = s_root st \<and> s_parser s = Some TagBody \<and> dest_ok s e_key"
  let ?R = "\<lambda>s. s_root s = s_root st \<and> s_parser s = Some Content \<and> s_length s = 0"
  have "(?Q st1 \<and> a1 = []) \<or> ?R st1"
  proof (rule tag_body_preserves[where Q = ?Q and R = ?R, OF _ _ _ _ assms(3)])
    show "?Q st" using assms by simp
  next
    fix s x s' assume "?Q s" "xml_key_append s x = Inr s'"
    then show "?Q s'" using key_append_ok[of s x s'] by simp
  next
    fix s t pre s' dn assume "?Q s" "xml_tag_match s t pre = Inr (s', dn)"
    then show "if dn then ?R s' else ?Q s'" using tag_match_ok[of s t pre s' dn] by simp
  next
    fix s assume "?Q s"
    then show "?Q (s\<lparr>s_cursor := 0\<rparr>)" by simp
  qed
  then show "s_root st1 = s_root st"
    and "(s_parser st1 = Some TagBody \<and> dest_ok st1 e_key \<and> a1 = []) \<or>
         (s_parser st1 = Some Content \<and> s_length st1 = 0)"
    by auto
qed


lemma tag_opening_append:
  "xml_parse_tag_opening st (a @ b) =
     then_call (xml_parse_tag_opening st a)
       (\<lambda>(st1, a1). if a1 = [] then xml_parse_tag_opening st1 b else Inr (st1, a1 @ b))"
proof (induction a arbitrary: st)
  case Nil
  then show ?case by simp
next
  case (Cons c a)
  show ?case
  proof (cases "find_pattern (s_cursor st) c xml_tag_patterns")
    case None
    then show ?thesis by (cases "xml_tag_opened st") simp_all
  next
    case (Some p)
    with Cons show ?thesis by simp
  qed
qed

lemma tag_opening_preserves:
  assumes "Q st"
    and stp: "\<And>s k t. Q s \<Longrightarrow> Q (s\<lparr>s_cursor := k, s_tag := t\<rparr>)"
    and opn: "\<And>s s'. Q s \<Longrightarrow> xml_tag_opened s = Inr s' \<Longrightarrow> R s'"
    and "xml_parse_tag_opening st a = Inr (st1, a1)"
  shows "(a1 = [] \<and> Q st1) \<or> (a1 \<noteq> [] \<and> R st1)"
  using assms(1,4)
proof (induction a arbitrary: st)
  case Nil
  then show ?case by simp
next
  case (Cons c a)
  show ?case
  proof (cases "find_pattern (s_cursor st) c xml_tag_patterns")
    case None
    with Cons.prems obtain s' where "xml_tag_opened st = Inr s'" "st1 = s'" "a1 = c # a"
      by (cases "xml_tag_opened st") auto
    with opn[OF Cons.prems(1)] show ?thesis by simp
  next
    case (Some p)
    with Cons.prems
      Cons.IH[OF stp[OF Cons.prems(1), where k = "s_cursor st + 1" and t = "Some p"]]
    show ?thesis by simp
  qed
qed

lemma tag_opened_ok:
  assumes "xml_tag_opened st = Inr st1"
  shows "s_parser st1 = Some TagBody" "s_length st1 = 0" "s_root st1 = s_root st"
    "s_cursor st1 = 0" "s_tag st1 = s_tag st"
  using assms
  by (auto simp: xml_tag_opened_def xml_close_element_def xml_element_create_def Let_def
        split: option.splits if_splits sum.splits prod.splits)

lemma tag_opening_ok:
  assumes "s_parser st = Some TagOpening" and "xml_parse_tag_opening st a = Inr (st1, a1)"
  shows "s_root st1 = s_root st"
    and "(a1 = [] \<and> s_parser st1 = Some TagOpening) \<or>
         (a1 \<noteq> [] \<and> s_parser st1 = Some TagBody \<and> s_length st1 = 0)"
proof -
  let ?Q = "\<lambda>s. s_root s = s_root st \<and> s_parser s = Some TagOpening"
  let ?R = "\<lambda>s. s_root s = s_root st \<and> s_parser s = Some TagBody \<and> s_length s = 0"
  have "(a1 = [] \<and> ?Q st1) \<or> (a1 \<noteq> [] \<and> ?R st1)"
  proof (rule tag_opening_preserves[where Q = ?Q and R = ?R, OF _ _ _ assms(2)])
    show "?Q st" using assms by simp
  next
    fix s k t assume "?Q s"
    then show "?Q (s\<lparr>s_cursor := k, s_tag := t\<rparr>)" by simp
  next
    fix s s' assume "?Q s" "xml_tag_opened s = Inr s'"
    then show "?R s'" using tag_opened_ok[of s s'] by simp
  qed
  then show "s_root st1 = s_root st"
    and "(a1 = [] \<and> s_parser st1 = Some TagOpening) \<or>
         (a1 \<noteq> [] \<and> s_parser st1 = Some TagBody \<and> s_length st1 = 0)"
    by auto
qed

lemma value_append_root:
  assumes "xml_value_append st x = Inr st1"
  shows "s_root st1 = s_root st"
  using assms
  by (auto simp: xml_value_append_def xml_element_create_def Let_def
        split: option.splits if_splits sum.splits prod.splits)

lemma dest_ok_parser [simp]: "dest_ok (s\<lparr>s_parser := k\<rparr>) sel = dest_ok s sel"
  by (simp add: dest_ok_def split: option.splits)

lemma parse_content_ok:
  assumes "s_parser st = Some Content" and "dest_ok st e_value"
    and "xml_parse_content st a = Inr (st1, a1)"
  shows "s_root st1 = s_root st"
    and "(a1 = [] \<and> s_parser st1 = Some Content \<and> dest_ok st1 e_value) \<or>
         (a1 \<noteq> [] \<and> s_parser st1 = Some TagOpening)"
proof -
  let ?n = "length (takeWhile (\<lambda>c. c \<noteq> CHR ''<'') a)"
  from assms(3) obtain s1 where
    v: "(if ?n > 0 then xml_value_append st (take ?n a) else Inr st) = Inr s1"
    and r: "st1 = (if ?n < length a then s1\<lparr>s_parser := Some TagOpening\<rparr> else s1)"
       "a1 = drop ?n a"
    by (auto simp: xml_parse_content_def Let_def split: sum.splits)
  from v assms(1,2) have s1: "s_root s1 = s_root st" "s_parser s1 = Some Content"
    "dest_ok s1 e_value"
    by (auto split: if_splits dest: value_append_ok value_append_root)
  from r s1 show "s_root st1 = s_root st"
    and "(a1 = [] \<and> s_parser st1 = Some Content \<and> dest_ok st1 e_value) \<or>
         (a1 \<noteq> [] \<and> s_parser st1 = Some TagOpening)"
    by auto
qed

lemma takeWhile_all_id: "\<forall>x\<in>set a. P x \<Longrightarrow> takeWhile P a = a"
  by (induction a) auto

lemma parse_content_plain:
  assumes "CHR ''<'' \<notin> set a" and "a \<noteq> []"
  shows "xml_parse_content st a = then_call (xml_value_append st a) (\<lambda>s. Inr (s, []))"
proof -
  from assms(1) have tw: "takeWhile (\<lambda>c. c \<noteq> CHR ''<'') a = a"
    by (intro takeWhile_all_id) auto
  show ?thesis
    unfolding xml_parse_content_def Let_def tw using assms(2)
    by (cases "xml_value_append st a") simp_all
qed

lemma parse_content_tag:
  assumes "CHR ''<'' \<notin> set pre"
  shows "xml_parse_content st (pre @ CHR ''<'' # r) =
           then_call (if pre \<noteq> [] then xml_value_append st pre else Inr st)
             (\<lambda>s. Inr (s\<lparr>s_parser := Some TagOpening\<rparr>, CHR ''<'' # r))"
proof -
  from assms have tw: "takeWhile (\<lambda>c. c \<noteq> CHR ''<'') (pre @ CHR ''<'' # r) = pre"
    by (simp add: takeWhile_neq_append)
  show ?thesis
    unfolding xml_parse_content_def Let_def tw
    by (cases "xml_value_append st pre") simp_all
qed

lemma parse_content_append:
  assumes "dest_ok st e_value" and "a \<noteq> []"
  shows "xml_parse_content st (a @ b) =
           then_call (xml_parse_content st a)
             (\<lambda>(st1, a1). if a1 = [] \<and> b \<noteq> [] then xml_parse_content st1 b
                          else Inr (st1, a1 @ b))"
proof (cases "CHR ''<'' \<in> set a")
  case True
  then obtain pre r where a: "a = pre @ CHR ''<'' # r" and n: "CHR ''<'' \<notin> set pre"
    by (auto dest: split_list_first)
  have "xml_parse_content st (pre @ CHR ''<'' # (r @ b)) =
           then_call (if pre \<noteq> [] then xml_value_append st pre else Inr st)
             (\<lambda>s. Inr (s\<lparr>s_parser := Some TagOpening\<rparr>, CHR ''<'' # (r @ b)))"
    by (rule parse_content_tag[OF n])
  with parse_content_tag[OF n, of st r] a show ?thesis
    by (cases "xml_value_append st pre") simp_all
next
  case False
  note pa = parse_content_plain[OF False assms(2), of st]
  show ?thesis
  proof (cases "b = []")
    case True
    with pa show ?thesis by (cases "xml_value_append st a") simp_all
  next
    case bne: False
    show ?thesis
    proof (cases "CHR ''<'' \<in> set b")
      case True
      then obtain pb rb where b: "b = pb @ CHR ''<'' # rb" and nb: "CHR ''<'' \<notin> set pb"
        by (auto dest: split_list_first)
      from False nb have nab: "CHR ''<'' \<notin> set (a @ pb)" by simp
      have e2: "xml_parse_content st ((a @ pb) @ CHR ''<'' # rb) =
           then_call (xml_value_append st (a @ pb))
             (\<lambda>s. Inr (s\<lparr>s_parser := Some TagOpening\<rparr>, CHR ''<'' # rb))"
        using parse_content_tag[OF nab, of st rb] assms(2) by simp
      show ?thesis
      proof (cases "pb = []")
        case True
        with e2 pa b bne parse_content_tag[OF nb, of _ rb] show ?thesis
          by (cases "xml_value_append st a") simp_all
      next
        case pne: False
        from value_append_twice[OF assms(1,2) pne] e2 pa b bne pne
          parse_content_tag[OF nb, of _ rb]
        show ?thesis
          by (cases "xml_value_append st a") simp_all
      qed
    next
      case nb: False
      from False nb have nab: "CHR ''<'' \<notin> set (a @ b)" by simp
      from parse_content_plain[OF nab, of st] assms(2)
        value_append_twice[OF assms(1,2) bne] pa bne parse_content_plain[OF nb bne]
      show ?thesis
        by (cases "xml_value_append st a") simp_all
    qed
  qed
qed


lemma parse_loop_Cons:
  "d \<noteq> [] \<Longrightarrow>
     xml_parse_loop st d = then_call (xml_call_parser st d) (\<lambda>(s, r). xml_parse_loop s r)"
  by (subst xml_parse_loop.simps) (simp add: then_call_def split: sum.splits)

lemma call_parser_ok:
  assumes "len_inv st" and "xml_call_parser st a = Inr (st1, a1)"
  shows "len_inv st1" and "s_root st1 = s_root st" and "s_parser st1 \<noteq> None"
proof -
  have "len_inv st1 \<and> s_root st1 = s_root st \<and> s_parser st1 \<noteq> None"
  proof (cases "s_parser st")
    case None
    with assms(2) show ?thesis by (simp add: xml_call_parser_def)
  next
    case (Some m)
    show ?thesis
    proof (cases m)
      case Content
      with Some assms have "xml_parse_content st a = Inr (st1, a1)" "dest_ok st e_value"
        by (simp_all add: xml_call_parser_def len_inv_def)
      from parse_content_ok[OF _ this(2,1)] Some Content show ?thesis
        by (auto simp: len_inv_def)
    next
      case TagOpening
      with Some assms have "xml_parse_tag_opening st a = Inr (st1, a1)"
        by (simp_all add: xml_call_parser_def)
      from tag_opening_ok[OF _ this] Some TagOpening show ?thesis
        by (auto simp: len_inv_def dest_ok_def)
    next
      case TagBody
      with Some assms have "xml_parse_tag_body st a = Inr (st1, a1)" "dest_ok st e_key"
        by (simp_all add: xml_call_parser_def len_inv_def)
      from tag_body_ok[OF _ this(2,1)] Some TagBody show ?thesis
        by (auto simp: len_inv_def dest_ok_def)
    qed
  qed
  then show "len_inv st1" and "s_root st1 = s_root st" and "s_parser st1 \<noteq> None"
    by simp_all
qed

lemma parse_loop_append:
  "len_inv st \<Longrightarrow>
     xml_parse_loop st (a @ b) = then_call (xml_parse_loop st a) (\<lambda>s. xml_parse_loop s b)"
proof (induction st a rule: xml_parse_loop.induct)
  case (1 st a)
  note inv = "1.prems"
  show ?case
  proof (cases "a = []")
    case True
    then show ?thesis by (simp add: xml_parse_loop_Nil)
  next
    case ane: False
    then have abne: "a @ b \<noteq> []" by simp
    note la = parse_loop_Cons[OF ane, of st]
    note lab = parse_loop_Cons[OF abne, of st]
    have ih: "xml_parse_loop st1 (a1 @ b) =
                then_call (xml_parse_loop st1 a1) (\<lambda>s. xml_parse_loop s b)"
      if "xml_call_parser st a = Inr (st1, a1)" for st1 a1
      using "1.IH"[OF ane that refl] call_parser_ok(1)[OF inv that] by simp
    show ?thesis
    proof (cases "xml_call_parser st a")
      case (Inl e)
      have "xml_call_parser st (a @ b) = Inl e"
      proof (cases "s_parser st")
        case None
        with Inl show ?thesis by (simp add: xml_call_parser_def)
      next
        case (Some m)
        show ?thesis
        proof (cases m)
          case Content
          with Some inv have "dest_ok st e_value" by (simp add: len_inv_def)
          from parse_content_append[OF this ane, of b] Some Content Inl show ?thesis
            by (simp add: xml_call_parser_def)
        next
          case TagOpening
          with tag_opening_append[of st a b] Some Inl show ?thesis
            by (simp add: xml_call_parser_def)
        next
          case TagBody
          with Some inv have "dest_ok st e_key" by (simp add: len_inv_def)
          from tag_body_append[OF this, of a b] Some TagBody Inl show ?thesis
            by (simp add: xml_call_parser_def)
        qed
      qed
      with la lab Inl show ?thesis by simp
    next
      case (Inr p)
      then obtain st1 a1 where c: "xml_call_parser st a = Inr (st1, a1)" by (cases p) auto
      note ok1 = call_parser_ok[OF inv c]
      from la c have la1: "xml_parse_loop st a = xml_parse_loop st1 a1" by simp
      have goal_direct: ?thesis if "xml_call_parser st (a @ b) = Inr (st1, a1 @ b)"
        using that lab la1 ih[OF c] by simp
      have goal_cont: ?thesis
        if "a1 = []" "b \<noteq> []" "xml_call_parser st (a @ b) = xml_call_parser st1 b"
        using that lab la1 parse_loop_Cons[OF that(2), of st1]
        by (simp add: xml_parse_loop_Nil)
      from c obtain m where m: "s_parser st = Some m"
        by (cases "s_parser st") (auto simp: xml_call_parser_def)
      show ?thesis
      proof (cases m)
        case Content
        with m inv c have d: "dest_ok st e_value" and pc: "xml_parse_content st a = Inr (st1, a1)"
          by (simp_all add: len_inv_def xml_call_parser_def)
        note ap = parse_content_append[OF d ane, of b]
        show ?thesis
        proof (cases "a1 = [] \<and> b \<noteq> []")
          case True
          from parse_content_ok(2)[OF _ d pc] m Content True
          have "s_parser st1 = Some Content" by auto
          with ap pc True m Content show ?thesis
            by (intro goal_cont) (simp_all add: xml_call_parser_def)
        next
          case False
          with ap pc m Content show ?thesis
            by (intro goal_direct) (auto simp: xml_call_parser_def)
        qed
      next
        case TagOpening
        with m c have po: "xml_parse_tag_opening st a = Inr (st1, a1)"
          by (simp add: xml_call_parser_def)
        note ap = tag_opening_append[of st a b]
        show ?thesis
        proof (cases "a1 = []")
          case True
          from tag_opening_ok(2)[OF _ po] m TagOpening True
          have p1: "s_parser st1 = Some TagOpening" by auto
          show ?thesis
          proof (cases "b = []")
            case True
            with c show ?thesis by (intro goal_direct) simp
          next
            case False
            with ap po True m TagOpening p1 show ?thesis
              by (intro goal_cont) (simp_all add: xml_call_parser_def)
          qed
        next
          case False
          with ap po m TagOpening show ?thesis
            by (intro goal_direct) (simp add: xml_call_parser_def)
        qed
      next
        case TagBody
        with m inv c have d: "dest_ok st e_key" and pb: "xml_parse_tag_body st a = Inr (st1, a1)"
          and pm: "s_parser st = Some TagBody"
          by (simp_all add: len_inv_def xml_call_parser_def)
        note ap = tag_body_append[OF d pm, of a b]
        show ?thesis
        proof (cases "s_parser st1 = Some TagBody")
          case True
          with tag_body_ok(2)[OF pm d pb] have a1: "a1 = []" by auto
          show ?thesis
          proof (cases "b = []")
            case True
            with c show ?thesis by (intro goal_direct) simp
          next
            case False
            with ap pb True pm a1 show ?thesis
              by (intro goal_cont) (simp_all add: xml_call_parser_def)
          qed
        next
          case False
          with ap pb pm show ?thesis
            by (intro goal_direct) (simp add: xml_call_parser_def)
        qed
      qed
    qed
  qed
qed


lemma parse_loop_ok:
  "len_inv st \<Longrightarrow> s_parser st \<noteq> None \<Longrightarrow> xml_parse_loop st a = Inr st1 \<Longrightarrow>
     len_inv st1 \<and> s_root st1 = s_root st \<and> s_parser st1 \<noteq> None"
proof (induction st a rule: xml_parse_loop.induct)
  case (1 st a)
  show ?case
  proof (cases "a = []")
    case True
    with "1.prems" show ?thesis by (simp add: xml_parse_loop_Nil)
  next
    case False
    from "1.prems"(3) parse_loop_Cons[OF False, of st] obtain s2 a2 where
      c: "xml_call_parser st a = Inr (s2, a2)" and l: "xml_parse_loop s2 a2 = Inr st1"
      by (cases "xml_call_parser st a") auto
    note ok = call_parser_ok[OF "1.prems"(1) c]
    from "1.IH"[OF False c refl ok(1,3) l] ok(2) show ?thesis by simp
  qed
qed

text \<open>
  Claim C1: for every document \<open>d\<close> and every offset \<open>i\<close>, feeding \<open>take i d\<close> and then
  \<open>drop i d\<close> to \<open>xml_parse_chunk\<close> on the zero state gives the same result as feeding
  \<open>d\<close> in one chunk: the same final state, with the same store of elements (keys, values,
  attributes, children in the same order), or the same error.
\<close>

theorem C1_two_chunks_equal_one:
  "xml_parse_two_chunks xml_state_zero (take i d) (drop i d) =
     xml_parse_chunk xml_state_zero (Some d)"
proof -
  define st0 where "st0 = \<lparr>s_root = Some 0, s_current = Some 0, s_tag = None, s_length = 0,
     s_cursor = 0, s_empty = False, s_parser = Some Content, s_heap = [new_element None]\<rparr>"
  have one: "xml_parse_chunk xml_state_zero (Some x) = xml_parse_loop st0 x" for x
    by (simp add: xml_parse_chunk_def xml_state_zero_def xml_element_create_def
          xml_close_tag_def st0_def)
  have inv: "len_inv st0" and pn: "s_parser st0 \<noteq> None"
    by (simp_all add: len_inv_def dest_ok_def st0_def)
  have two: "xml_parse_chunk s1 (Some x) = xml_parse_loop s1 x"
    if "xml_parse_loop st0 y = Inr s1" for s1 x y
  proof -
    from parse_loop_ok[OF inv pn that] have "s_root s1 \<noteq> None" "s_parser s1 \<noteq> None"
      by (simp_all add: st0_def)
    then show ?thesis by (auto simp: xml_parse_chunk_def)
  qed
  have "xml_parse_two_chunks xml_state_zero (take i d) (drop i d) =
          then_call (xml_parse_loop st0 (take i d)) (\<lambda>s. xml_parse_loop s (drop i d))"
    by (cases "xml_parse_loop st0 (take i d)")
       (simp_all add: xml_parse_two_chunks_def one two)
  also have "\<dots> = xml_parse_loop st0 (take i d @ drop i d)"
    by (rule parse_loop_append[OF inv, symmetric])
  finally show ?thesis by (simp add: one)
qed

subsection \<open>The steps of the parser on the tree\<close>

lemma tree_steps_trans:
  "tree_steps h c h1 c1 \<Longrightarrow> tree_steps h1 c1 h2 c2 \<Longrightarrow> tree_steps h c h2 c2"
  by (induction rule: tree_steps.induct) (auto intro: tree_steps.intros)

lemma tree_steps_one: "tree_step h c h1 c1 \<Longrightarrow> tree_steps h c h1 c1"
  by (auto intro: tree_steps.intros)

lemma tree_step_wf:
  assumes "tree_step h c h1 c1" and "wf_tree h c"
  shows "wf_tree h1 c1"
  using assms
proof (cases rule: tree_step.cases)
  case ts_orphan
  with assms(2) show ?thesis
    by (auto simp: wf_tree_def nth_append new_element_def split: option.splits)
next
  case (ts_child p)
  with assms(2) show ?thesis
    by (auto simp: wf_tree_def nth_append nth_list_update new_element_def less_Suc_eq
             split: option.splits)
next
  case (ts_close x)
  with assms(2) show ?thesis
    by (auto simp: wf_tree_def split: option.splits)
next
  case (ts_edit x el)
  with assms(2) show ?thesis
    by (auto simp: wf_tree_def nth_list_update split: option.splits)
qed

lemma tree_steps_wf: "tree_steps h c h1 c1 \<Longrightarrow> wf_tree h c \<Longrightarrow> wf_tree h1 c1"
  by (induction rule: tree_steps.induct) (auto dest: tree_step_wf)

lemma tree_step_frozen:
  assumes "tree_step h c h1 c1" and "frozen F h0 h c"
  shows "frozen F h0 h1 c1"
  using assms
proof (cases rule: tree_step.cases)
  case ts_orphan
  with assms(2) show ?thesis
    by (auto simp: frozen_def nth_append new_element_def split: option.splits)
next
  case (ts_child p)
  with assms(2) show ?thesis
    by (auto simp: frozen_def nth_append nth_list_update new_element_def less_Suc_eq
             split: option.splits)
next
  case (ts_close x)
  with assms(2) show ?thesis
    by (auto simp: frozen_def split: option.splits)
next
  case (ts_edit x el)
  with assms(2) show ?thesis
    by (auto simp: frozen_def nth_list_update split: option.splits)
qed

lemma tree_steps_frozen: "tree_steps h c h1 c1 \<Longrightarrow> frozen F h0 h c \<Longrightarrow> frozen F h0 h1 c1"
  by (induction rule: tree_steps.induct) (auto dest: tree_step_frozen)


lemma element_create_step:
  assumes "xml_element_create st (s_current st) = Inr (st1, e)"
  shows "tree_step (s_heap st) (s_current st) (s_heap st1) (Some e)"
    and "e = length (s_heap st)" and "st1 = st\<lparr>s_heap := s_heap st1\<rparr>"
  using assms
  by (auto simp: xml_element_create_def Let_def intro: tree_step.intros
        split: option.splits if_splits)

lemma value_append_steps:
  assumes "xml_value_append st x = Inr st1"
  shows "tree_steps (s_heap st) (s_current st) (s_heap st1) (s_current st1)"
proof -
  from assms obtain s0 where
    a: "(if s_length st = 0
            then (case xml_element_create st (s_current st) of
                    Inl x \<Rightarrow> Inl x
                  | Inr (st1, e) \<Rightarrow> Inr (st1\<lparr>s_current := Some e\<rparr>))
            else Inr st) = Inr s0"
    by (auto simp: xml_value_append_def split: sum.splits)
  have one: "tree_steps (s_heap st) (s_current st) (s_heap s0) (s_current s0)"
  proof (cases "s_length st = 0")
    case True
    with a obtain s1 e where c: "xml_element_create st (s_current st) = Inr (s1, e)"
      and s0: "s0 = s1\<lparr>s_current := Some e\<rparr>"
      by (auto split: sum.splits)
    from element_create_step(1)[OF c] s0 show ?thesis
      by (auto intro: tree_steps_one)
  next
    case False
    with a show ?thesis by (auto intro: tree_steps.intros)
  qed
  from assms a obtain c where c: "s_current s0 = Some c" "c < length (s_heap s0)"
    and st1: "s_heap st1 = (s_heap s0)[c := (s_heap s0 ! c)
                 \<lparr>e_value := fst (xml_string_append (e_value (s_heap s0 ! c)) (s_length s0) x)\<rparr>]"
      "s_current st1 = s_current s0"
    by (auto simp: xml_value_append_def Let_def split: sum.splits option.splits if_splits prod.splits)
  have "tree_step (s_heap s0) (s_current s0) (s_heap st1) (s_current st1)"
    unfolding st1 c(1) by (rule ts_edit[OF c(2)]) simp_all
  with one show ?thesis by (blast intro: tree_steps_trans tree_steps_one)
qed

lemma key_string_append_steps:
  assumes "key_string_append st x = Inr st1"
  shows "tree_steps (s_heap st) (s_current st) (s_heap st1) (s_current st1)"
proof -
  from assms obtain c where c: "s_current st = Some c" "c < length (s_heap st)"
    and st1: "s_heap st1 = (s_heap st)[c := (s_heap st ! c)
                 \<lparr>e_key := fst (xml_string_append (e_key (s_heap st ! c)) (s_length st) x)\<rparr>]"
      "s_current st1 = s_current st"
    by (auto simp: key_string_append_def Let_def split: option.splits if_splits prod.splits)
  have "tree_step (s_heap st) (s_current st) (s_heap st1) (s_current st1)"
    unfolding st1 c(1) by (rule ts_edit[OF c(2)]) simp_all
  then show ?thesis by (rule tree_steps_one)
qed

lemma key_append_steps:
  assumes "xml_key_append st x = Inr st1"
  shows "tree_steps (s_heap st) (s_current st) (s_heap st1) (s_current st1)"
proof -
  from assms obtain c t where c: "s_current st = Some c" and t: "s_tag st = Some t"
    by (auto simp: xml_key_append_def split: option.splits)
  show ?thesis
  proof (cases "p_type t = TAG_ELEMENT_CLOSE")
    case True
    with assms c t show ?thesis by (auto simp: xml_key_append_def intro: tree_steps.intros)
  next
    case ty: False
    show ?thesis
    proof (cases "s_length st = 0 \<and> p_open_len t > 1")
      case True
      with assms c t ty obtain st0 where
        a: "key_string_append st (take (p_open_len t - 1) (drop 1 (p_open t))) = Inr st0"
        and b: "key_string_append st0 x = Inr st1"
        by (auto simp: xml_key_append_def split: sum.splits)
      from key_string_append_steps[OF a] key_string_append_steps[OF b] show ?thesis
        by (rule tree_steps_trans)
    next
      case False
      with assms c t ty have b: "key_string_append st x = Inr st1"
        by (auto simp: xml_key_append_def split: sum.splits)
      from key_string_append_steps[OF b] show ?thesis .
    qed
  qed
qed

lemma close_element_steps:
  assumes "xml_close_element st = Inr st1"
  shows "tree_steps (s_heap st) (s_current st) (s_heap st1) (s_current st1)"
  using assms
  by (auto simp: xml_close_element_def intro!: tree_steps_one tree_step.intros
        split: option.splits if_splits)

lemma parse_tag_name_effect:
  assumes "xml_parse_tag_name st = Inr st1"
  shows "\<exists>c b b1 as. s_current st = Some c \<and> c < length (s_heap st) \<and>
           e_key (s_heap st ! c) = Some b \<and>
           st1 = st\<lparr>s_empty := (snd (xml_check_empty b) \<or> s_empty st),
                    s_heap := (s_heap st)[c := (s_heap st ! c)\<lparr>e_key := Some b1,
                       e_attributes := e_attributes (s_heap st ! c) @ as\<rparr>]\<rparr>"
proof -
  from assms obtain c b where c: "s_current st = Some c" "c < length (s_heap st)"
    "e_key (s_heap st ! c) = Some b"
    by (auto simp: xml_parse_tag_name_def Let_def split: option.splits if_splits)
  obtain b1 em where ce: "xml_check_empty b = (b1, em)" by (cases "xml_check_empty b")
  let ?el = "s_heap st ! c"
  have el: "?el\<lparr>e_key := Some k\<rparr> = ?el\<lparr>e_key := Some k, e_attributes := e_attributes ?el @ []\<rparr>"
    for k by simp
  from assms c ce show ?thesis
    apply (simp add: xml_parse_tag_name_def Let_def split: if_splits sum.splits prod.splits)
      apply (metis el)
     apply blast
    apply (metis el)
    done
qed

lemma parse_tag_name_steps:
  assumes "xml_parse_tag_name st = Inr st1"
  shows "tree_steps (s_heap st) (s_current st) (s_heap st1) (s_current st1)"
proof -
  from parse_tag_name_effect[OF assms] obtain c b b1 as where
    c: "s_current st = Some c" "c < length (s_heap st)"
    and st1: "st1 = st\<lparr>s_empty := (snd (xml_check_empty b) \<or> s_empty st),
                    s_heap := (s_heap st)[c := (s_heap st ! c)\<lparr>e_key := Some b1,
                       e_attributes := e_attributes (s_heap st ! c) @ as\<rparr>]\<rparr>"
    by blast
  have "tree_step (s_heap st) (Some c) ((s_heap st)[c := (s_heap st ! c)\<lparr>e_key := Some b1,
                       e_attributes := e_attributes (s_heap st ! c) @ as\<rparr>]) (Some c)"
    by (rule ts_edit[OF c(2)]) simp_all
  with c st1 have "tree_step (s_heap st) (s_current st) (s_heap st1) (s_current st1)"
    by simp
  then show ?thesis by (rule tree_steps_one)
qed


lemma tag_finish_steps:
  assumes "xml_tag_finish st t = Inr st1"
  shows "tree_steps (s_heap st) (s_current st) (s_heap st1) (s_current st1)"
proof -
  from assms obtain st2 st3 where
    a: "(if p_type t = TAG_ELEMENT_OPEN then xml_parse_tag_name st else Inr st) = Inr st2"
    and b: "(if p_type t \<noteq> TAG_ELEMENT_OPEN \<or> s_empty st2
                then xml_close_element st2 else Inr st2) = Inr st3"
    and c: "st1 = xml_close_tag st3"
    by (auto simp: xml_tag_finish_def split: sum.splits)
  from a have 1: "tree_steps (s_heap st) (s_current st) (s_heap st2) (s_current st2)"
    by (auto split: if_splits intro: tree_steps.intros parse_tag_name_steps)
  from b have 2: "tree_steps (s_heap st2) (s_current st2) (s_heap st3) (s_current st3)"
    by (auto split: if_splits intro: tree_steps.intros close_element_steps)
  from c have "s_heap st1 = s_heap st3" "s_current st1 = s_current st3"
    by (simp_all add: xml_close_tag_def)
  with tree_steps_trans[OF 1 2] show ?thesis by simp
qed

lemma tag_complete_steps:
  assumes "xml_tag_complete st t = Inr st1"
  shows "tree_steps (s_heap st) (s_current st) (s_heap st1) (s_current st1)"
proof -
  from assms obtain st0 where
    a: "(if s_cursor st > 1 then key_string_append st (take (s_cursor st - 1) (p_close t))
         else Inr st) = Inr st0"
    and b: "xml_tag_finish st0 t = Inr st1"
    by (auto simp: xml_tag_complete_def split: sum.splits)
  from a have "tree_steps (s_heap st) (s_current st) (s_heap st0) (s_current st0)"
    by (auto split: if_splits intro: tree_steps.intros key_string_append_steps)
  from tree_steps_trans[OF this tag_finish_steps[OF b]] show ?thesis .
qed

lemma tag_match_steps:
  assumes "xml_tag_match st t pre = Inr (st2, dn)"
  shows "tree_steps (s_heap st) (s_current st) (s_heap st2) (s_current st2)"
proof -
  from assms obtain st1 where
    a: "(if s_cursor st = 0 then xml_key_append st pre else Inr st) = Inr st1"
    by (auto simp: xml_tag_match_def split: sum.splits)
  then have 1: "tree_steps (s_heap st) (s_current st) (s_heap st1) (s_current st1)"
    by (auto split: if_splits intro: tree_steps.intros key_append_steps)
  let ?s = "st1\<lparr>s_cursor := s_cursor st1 + 1\<rparr>"
  from assms a have "st2 = ?s \<or> xml_tag_complete ?s t = Inr st2"
    by (auto simp: xml_tag_match_def Let_def split: if_splits sum.splits)
  then have "tree_steps (s_heap st1) (s_current st1) (s_heap st2) (s_current st2)"
    using tag_complete_steps[of ?s t st2] by (auto intro: tree_steps.intros)
  from tree_steps_trans[OF 1 this] show ?thesis .
qed

lemma tag_opened_steps:
  assumes "xml_tag_opened st = Inr st1"
  shows "tree_steps (s_heap st) (s_current st) (s_heap st1) (s_current st1)"
proof -
  from assms obtain t s1 where t: "s_tag st = Some t"
    and a: "(if s_length st > 0 then xml_close_element (st\<lparr>s_cursor := 0\<rparr>)
                else Inr (st\<lparr>s_cursor := 0\<rparr>)) = Inr s1"
    by (auto simp: xml_tag_opened_def split: option.splits sum.splits)
  from a have 1: "tree_steps (s_heap st) (s_current st) (s_heap s1) (s_current s1)"
    using close_element_steps[of "st\<lparr>s_cursor := 0\<rparr>" s1]
    by (auto split: if_splits intro: tree_steps.intros)
  let ?s2 = "s1\<lparr>s_length := 0, s_cursor := 0, s_parser := Some TagBody\<rparr>"
  have "tree_steps (s_heap s1) (s_current s1) (s_heap st1) (s_current st1)"
  proof (cases "p_type t \<noteq> TAG_ELEMENT_CLOSE")
    case True
    with assms t a obtain s3 e where
      c: "xml_element_create ?s2 (s_current ?s2) = Inr (s3, e)" and r: "st1 = s3\<lparr>s_current := Some e\<rparr>"
      by (auto simp: xml_tag_opened_def Let_def split: sum.splits)
    from element_create_step(1)[OF c] r show ?thesis
      by (auto intro: tree_steps_one)
  next
    case False
    with assms t a have "st1 = ?s2" by (auto simp: xml_tag_opened_def Let_def)
    then show ?thesis by (auto intro: tree_steps.intros)
  qed
  from tree_steps_trans[OF 1 this] show ?thesis .
qed

lemma call_parser_steps:
  assumes "xml_call_parser st a = Inr (st1, a1)"
  shows "tree_steps (s_heap st) (s_current st) (s_heap st1) (s_current st1)"
proof -
  let ?Q = "\<lambda>s. tree_steps (s_heap st) (s_current st) (s_heap s) (s_current s)"
  have q0: "?Q st" by (rule tss_refl)
  from assms obtain m where m: "s_parser st = Some m"
    by (cases "s_parser st") (auto simp: xml_call_parser_def)
  show ?thesis
  proof (cases m)
    case Content
    with m assms have pc: "xml_parse_content st a = Inr (st1, a1)"
      by (simp add: xml_call_parser_def)
    let ?n = "length (takeWhile (\<lambda>c. c \<noteq> CHR ''<'') a)"
    from pc obtain s1 where
      v: "(if ?n > 0 then xml_value_append st (take ?n a) else Inr st) = Inr s1"
      and r: "st1 = (if ?n < length a then s1\<lparr>s_parser := Some TagOpening\<rparr> else s1)"
      by (auto simp: xml_parse_content_def Let_def split: sum.splits)
    from v have "?Q s1" by (auto split: if_splits intro: tree_steps.intros value_append_steps)
    with r show ?thesis by (auto split: if_splits)
  next
    case TagOpening
    with m assms have po: "xml_parse_tag_opening st a = Inr (st1, a1)"
      by (simp add: xml_call_parser_def)
    have "(a1 = [] \<and> ?Q st1) \<or> (a1 \<noteq> [] \<and> ?Q st1)"
    proof (rule tag_opening_preserves[where Q = ?Q and R = ?Q, OF q0 _ _ po])
      fix s k t assume "?Q s"
      then show "?Q (s\<lparr>s_cursor := k, s_tag := t\<rparr>)" by simp
    next
      fix s s' assume "?Q s" "xml_tag_opened s = Inr s'"
      then show "?Q s'" using tag_opened_steps[of s s'] by (blast intro: tree_steps_trans)
    qed
    then show ?thesis by blast
  next
    case TagBody
    with m assms have pb: "xml_parse_tag_body st a = Inr (st1, a1)"
      by (simp add: xml_call_parser_def)
    have "(?Q st1 \<and> a1 = []) \<or> ?Q st1"
    proof (rule tag_body_preserves[where Q = ?Q and R = ?Q, OF q0 _ _ _ pb])
      fix s x s' assume "?Q s" "xml_key_append s x = Inr s'"
      then show "?Q s'" using key_append_steps[of s x s'] by (blast intro: tree_steps_trans)
    next
      fix s t pre s' dn assume "?Q s" "xml_tag_match s t pre = Inr (s', dn)"
      then show "if dn then ?Q s' else ?Q s'"
        using tag_match_steps[of s t pre s' dn] by (auto intro: tree_steps_trans)
    next
      fix s assume "?Q s"
      then show "?Q (s\<lparr>s_cursor := 0\<rparr>)" by simp
    qed
    then show ?thesis by blast
  qed
qed

lemma parse_loop_steps:
  "xml_parse_loop st a = Inr st1 \<Longrightarrow>
     tree_steps (s_heap st) (s_current st) (s_heap st1) (s_current st1)"
proof (induction st a rule: xml_parse_loop.induct)
  case (1 st a)
  show ?case
  proof (cases "a = []")
    case True
    with "1.prems" show ?thesis by (simp add: xml_parse_loop_Nil tss_refl)
  next
    case False
    from "1.prems" parse_loop_Cons[OF False, of st] obtain s2 a2 where
      c: "xml_call_parser st a = Inr (s2, a2)" and l: "xml_parse_loop s2 a2 = Inr st1"
      by (cases "xml_call_parser st a") auto
    from tree_steps_trans[OF call_parser_steps[OF c] "1.IH"[OF False c refl l]]
    show ?thesis .
  qed
qed


lemma key_string_append_empty:
  "key_string_append st x = Inr st1 \<Longrightarrow> s_empty st1 = s_empty st"
  by (auto simp: key_string_append_def Let_def split: option.splits if_splits prod.splits)

lemma key_append_empty: "xml_key_append st x = Inr st1 \<Longrightarrow> s_empty st1 = s_empty st"
  by (auto simp: xml_key_append_def split: option.splits if_splits sum.splits
        dest: key_string_append_empty)

lemma value_append_flags:
  "xml_value_append st x = Inr st1 \<Longrightarrow> s_empty st1 = s_empty st \<and> s_cursor st1 = s_cursor st"
  by (auto simp: xml_value_append_def xml_element_create_def Let_def
        split: option.splits if_splits sum.splits prod.splits)

lemma tag_opened_empty: "xml_tag_opened st = Inr st1 \<Longrightarrow> s_empty st1 = s_empty st"
  by (auto simp: xml_tag_opened_def xml_close_element_def xml_element_create_def Let_def
        split: option.splits if_splits sum.splits prod.splits)

lemma tag_complete_flags:
  assumes "xml_tag_complete st t = Inr st1"
  shows "\<not> s_empty st1"
proof -
  from assms obtain st0 st2 st3 where "st1 = xml_close_tag st3"
    by (auto simp: xml_tag_complete_def xml_tag_finish_def split: sum.splits)
  then show ?thesis by (simp add: xml_close_tag_def)
qed

lemma tag_match_empty:
  assumes "xml_tag_match st t pre = Inr (st2, dn)"
  shows "if dn then \<not> s_empty st2 \<and> s_cursor st2 = 0 else s_empty st2 = s_empty st"
proof -
  from assms obtain st1 where
    a: "(if s_cursor st = 0 then xml_key_append st pre else Inr st) = Inr st1"
    by (auto simp: xml_tag_match_def split: sum.splits)
  then have e: "s_empty st1 = s_empty st" by (auto split: if_splits dest: key_append_empty)
  from assms a e show ?thesis
    by (auto simp: xml_tag_match_def Let_def split: if_splits sum.splits
          dest: tag_complete_flags tag_complete_ok(4))
qed

lemma call_parser_flags:
  assumes "flags_inv st" and "xml_call_parser st a = Inr (st1, a1)"
  shows "flags_inv st1"
proof -
  from assms(2) obtain m where m: "s_parser st = Some m"
    by (cases "s_parser st") (auto simp: xml_call_parser_def)
  show ?thesis
  proof (cases m)
    case Content
    with m assms have pc: "xml_parse_content st a = Inr (st1, a1)"
      by (simp add: xml_call_parser_def)
    let ?n = "length (takeWhile (\<lambda>c. c \<noteq> CHR ''<'') a)"
    from pc obtain s1 where
      v: "(if ?n > 0 then xml_value_append st (take ?n a) else Inr st) = Inr s1"
      and r: "st1 = (if ?n < length a then s1\<lparr>s_parser := Some TagOpening\<rparr> else s1)"
      by (auto simp: xml_parse_content_def Let_def split: sum.splits)
    from v have "s_empty s1 = s_empty st \<and> s_cursor s1 = s_cursor st"
      by (auto split: if_splits dest: value_append_flags)
    with r assms(1) m Content show ?thesis by (auto simp: flags_inv_def)
  next
    case TagOpening
    with m assms have po: "xml_parse_tag_opening st a = Inr (st1, a1)"
      by (simp add: xml_call_parser_def)
    let ?Q = "\<lambda>s. \<not> s_empty s \<and> s_parser s = Some TagOpening"
    let ?R = "\<lambda>s. \<not> s_empty s \<and> s_parser s = Some TagBody"
    have "(a1 = [] \<and> ?Q st1) \<or> (a1 \<noteq> [] \<and> ?R st1)"
    proof (rule tag_opening_preserves[where Q = ?Q and R = ?R, OF _ _ _ po])
      show "?Q st" using assms(1) m TagOpening by (simp add: flags_inv_def)
    next
      fix s k t assume "?Q s"
      then show "?Q (s\<lparr>s_cursor := k, s_tag := t\<rparr>)" by simp
    next
      fix s s' assume "?Q s" "xml_tag_opened s = Inr s'"
      then show "?R s'" using tag_opened_empty[of s s'] tag_opened_ok(1)[of s s'] by simp
    qed
    then show ?thesis by (auto simp: flags_inv_def)
  next
    case TagBody
    with m assms have pb: "xml_parse_tag_body st a = Inr (st1, a1)"
      by (simp add: xml_call_parser_def)
    let ?Q = "\<lambda>s. \<not> s_empty s \<and> s_parser s = Some TagBody"
    let ?R = "\<lambda>s. \<not> s_empty s \<and> s_cursor s = 0"
    have "(?Q st1 \<and> a1 = []) \<or> ?R st1"
    proof (rule tag_body_preserves[where Q = ?Q and R = ?R, OF _ _ _ _ pb])
      show "?Q st" using assms(1) m TagBody by (simp add: flags_inv_def)
    next
      fix s x s' assume "?Q s" "xml_key_append s x = Inr s'"
      then show "?Q s'" using key_append_empty[of s x s'] key_append_ok(2)[of s x s'] by simp
    next
      fix s t pre s' dn assume "?Q s" "xml_tag_match s t pre = Inr (s', dn)"
      then show "if dn then ?R s' else ?Q s'"
        using tag_match_empty[of s t pre s' dn] tag_match_ok(3)[of s t pre s' dn]
        by (auto split: if_splits)
    next
      fix s assume "?Q s"
      then show "?Q (s\<lparr>s_cursor := 0\<rparr>)" by simp
    qed
    then show ?thesis by (auto simp: flags_inv_def)
  qed
qed

lemma parse_loop_flags:
  "flags_inv st \<Longrightarrow> xml_parse_loop st a = Inr st1 \<Longrightarrow> flags_inv st1"
proof (induction st a rule: xml_parse_loop.induct)
  case (1 st a)
  show ?case
  proof (cases "a = []")
    case True
    with "1.prems" show ?thesis by (simp add: xml_parse_loop_Nil)
  next
    case False
    from "1.prems"(2) parse_loop_Cons[OF False, of st] obtain s2 a2 where
      c: "xml_call_parser st a = Inr (s2, a2)" and l: "xml_parse_loop s2 a2 = Inr st1"
      by (cases "xml_call_parser st a") auto
    from "1.IH"[OF False c refl call_parser_flags[OF "1.prems"(1) c] l] show ?thesis .
  qed
qed

text \<open>The state in which the loop of the first call of \<open>xml_parse_chunk\<close> starts.\<close>

lemma parse_chunk_zero:
  "xml_parse_chunk xml_state_zero (Some x) =
     xml_parse_loop \<lparr>s_root = Some 0, s_current = Some 0, s_tag = None, s_length = 0,
       s_cursor = 0, s_empty = False, s_parser = Some Content,
       s_heap = [new_element None]\<rparr> x"
  by (simp add: xml_parse_chunk_def xml_state_zero_def xml_element_create_def
        xml_close_tag_def)

lemma parse_chunk_zero_inv:
  assumes "xml_parse_chunk xml_state_zero (Some x) = Inr st"
  shows "flags_inv st" and "len_inv st" and "wf_tree (s_heap st) (s_current st)"
    and "s_parser st \<noteq> None" and "s_root st = Some 0"
proof -
  let ?st0 = "\<lparr>s_root = Some 0, s_current = Some 0, s_tag = None, s_length = 0,
       s_cursor = 0, s_empty = False, s_parser = Some Content,
       s_heap = [new_element None]\<rparr>"
  from assms have l: "xml_parse_loop ?st0 x = Inr st" by (simp add: parse_chunk_zero)
  have f0: "flags_inv ?st0" and i0: "len_inv ?st0" and p0: "s_parser ?st0 \<noteq> None"
    and w0: "wf_tree (s_heap ?st0) (s_current ?st0)"
    by (simp_all add: flags_inv_def len_inv_def dest_ok_def wf_tree_def new_element_def)
  from parse_loop_flags[OF f0 l] show "flags_inv st" .
  from parse_loop_ok[OF i0 p0 l] show "len_inv st" "s_parser st \<noteq> None" "s_root st = Some 0"
    by simp_all
  from tree_steps_wf[OF parse_loop_steps[OF l] w0] show "wf_tree (s_heap st) (s_current st)" .
qed

subsection \<open>Running the parser over an element\<close>

lemma find_pattern_open: "find_pattern 0 (CHR ''<'') xml_tag_patterns = Some pat_open"
  by (simp add: xml_tag_patterns_def pat_open_def rdc_def)

lemma find_pattern_close: "find_pattern (Suc 0) (CHR ''/'') xml_tag_patterns = Some pat_close"
  by (simp add: xml_tag_patterns_def pat_open_def pat_close_def rdc_def)

lemma find_pattern_1_none:
  "c \<noteq> CHR ''/'' \<Longrightarrow> c \<noteq> CHR ''?'' \<Longrightarrow> c \<noteq> CHR ''!'' \<Longrightarrow>
     find_pattern (Suc 0) c xml_tag_patterns = None"
  by (simp add: xml_tag_patterns_def pat_open_def pat_close_def pat_pi_def pat_type_def
        pat_comment_def pat_cdata_def rdc_def)

lemma find_pattern_2_none:
  "c \<noteq> CHR ''-'' \<Longrightarrow> c \<noteq> CHR ''['' \<Longrightarrow>
     find_pattern (Suc (Suc 0)) c xml_tag_patterns = None"
  by (simp add: xml_tag_patterns_def pat_open_def pat_close_def pat_pi_def pat_type_def
        pat_comment_def pat_cdata_def rdc_def)

lemma tag_opening_open:
  assumes "s_cursor st = 0" and "c \<noteq> CHR ''/''" "c \<noteq> CHR ''?''" "c \<noteq> CHR ''!''"
  shows "xml_parse_tag_opening st (CHR ''<'' # c # r) =
           then_call (xml_tag_opened (st\<lparr>s_cursor := 1, s_tag := Some pat_open\<rparr>))
             (\<lambda>s. Inr (s, c # r))"
  using assms
  by (cases "xml_tag_opened (st\<lparr>s_cursor := 1, s_tag := Some pat_open\<rparr>)")
     (simp_all add: find_pattern_open find_pattern_1_none)

lemma tag_opening_close:
  assumes "s_cursor st = 0" and "c \<noteq> CHR ''-''" "c \<noteq> CHR ''[''"
  shows "xml_parse_tag_opening st (CHR ''<'' # CHR ''/'' # c # r) =
           then_call (xml_tag_opened (st\<lparr>s_cursor := 2, s_tag := Some pat_close\<rparr>))
             (\<lambda>s. Inr (s, c # r))"
  using assms
  by (cases "xml_tag_opened (st\<lparr>s_cursor := 2, s_tag := Some pat_close\<rparr>)")
     (simp_all add: find_pattern_open find_pattern_close find_pattern_2_none
        numeral_2_eq_2)

lemma tag_opened_create:
  assumes "xml_tag_opened st = Inr sC" and "s_tag st = Some t"
    and "p_type t \<noteq> TAG_ELEMENT_CLOSE" and "wf_tree (s_heap st) (s_current st)"
  shows "\<exists>p. s_heap sC ! length (s_heap st) = new_element p \<and>
           length (s_heap sC) = Suc (length (s_heap st)) \<and>
           s_current sC = Some (length (s_heap st)) \<and>
           (case p of None \<Rightarrow> True | Some q \<Rightarrow> q < length (s_heap st)) \<and>
           (\<forall>i<length (s_heap st). e_parent (s_heap sC ! i) = e_parent (s_heap st ! i)) \<and>
           s_empty sC = s_empty st \<and> s_root sC = s_root st"
proof -
  from assms(1,2) obtain s1 where
    a: "(if s_length st > 0 then xml_close_element (st\<lparr>s_cursor := 0\<rparr>)
                else Inr (st\<lparr>s_cursor := 0\<rparr>)) = Inr s1"
    by (auto simp: xml_tag_opened_def split: option.splits sum.splits)
  from a have s1: "s_heap s1 = s_heap st" "s_empty s1 = s_empty st" "s_root s1 = s_root st"
    by (auto simp: xml_close_element_def split: if_splits option.splits)
  from tree_steps_wf[OF _ assms(4)] a have w1: "wf_tree (s_heap s1) (s_current s1)"
    using close_element_steps[of "st\<lparr>s_cursor := 0\<rparr>" s1] assms(4)
    by (auto split: if_splits)
  let ?s2 = "s1\<lparr>s_length := 0, s_cursor := 0, s_parser := Some TagBody\<rparr>"
  from assms(1-3) a obtain s3 e where
    c: "xml_element_create ?s2 (s_current s1) = Inr (s3, e)" and r: "sC = s3\<lparr>s_current := Some e\<rparr>"
    by (auto simp: xml_tag_opened_def Let_def split: sum.splits)
  from c r s1 w1 show ?thesis
    by (intro exI[of _ "s_current s1"])
       (auto simp: xml_element_create_def Let_def nth_append nth_list_update wf_tree_def
             split: option.splits if_splits)
qed

lemma tag_opened_close:
  assumes "xml_tag_opened st = Inr sC" and "s_tag st = Some pat_close"
    and "s_length st > 0" and "s_current st = Some x"
  shows "sC = st\<lparr>s_current := e_parent (s_heap st ! x), s_length := 0, s_cursor := 0,
                  s_parser := Some TagBody\<rparr>"
  using assms
  by (auto simp: xml_tag_opened_def xml_close_element_def pat_close_def TAG_ELEMENT_CLOSE_def
        Let_def split: if_splits)

lemma key_append_fresh:
  assumes "s_tag st = Some pat_open" and "s_current st = Some e" and "e < length (s_heap st)"
    and "s_length st = 0" and "e_key (s_heap st ! e) = None" and "k \<noteq> []"
  shows "xml_key_append st k =
           Inr (st\<lparr>s_heap := (s_heap st)[e := (s_heap st ! e)\<lparr>e_key := Some k\<rparr>],
                   s_length := length k\<rparr>)"
  using assms
  by (simp add: xml_key_append_def key_string_append_def xml_string_append_def pat_open_def
        TAG_ELEMENT_CLOSE_def Let_def)


lemma tag_finish_open_effect:
  assumes "xml_tag_finish st pat_open = Inr s2" and "s_current st = Some e"
    and "e_key (s_heap st ! e) = Some k" and "\<not> s_empty st"
  shows "\<exists>b as. s_heap s2 = (s_heap st)[e := (s_heap st ! e)\<lparr>e_key := Some b,
                     e_attributes := e_attributes (s_heap st ! e) @ as\<rparr>] \<and>
           s_current s2 = (if snd (xml_check_empty k) then e_parent (s_heap st ! e) else Some e) \<and>
           s_parser s2 = Some Content \<and> s_cursor s2 = 0 \<and> s_length s2 = 0 \<and>
           \<not> s_empty s2 \<and> s_root s2 = s_root st \<and> e < length (s_heap st)"
proof -
  have ty: "p_type pat_open = TAG_ELEMENT_OPEN"
    by (simp add: pat_open_def TAG_ELEMENT_OPEN_def)
  from assms(1) ty obtain sE st3 where
    a: "xml_parse_tag_name st = Inr sE"
    and b: "(if s_empty sE then xml_close_element sE else Inr sE) = Inr st3"
    and c: "s2 = xml_close_tag st3"
    by (auto simp: xml_tag_finish_def split: sum.splits)
  from parse_tag_name_effect[OF a] assms(2,3,4) obtain b1 as where
    el: "e < length (s_heap st)"
    and sE: "sE = st\<lparr>s_empty := snd (xml_check_empty k),
                    s_heap := (s_heap st)[e := (s_heap st ! e)\<lparr>e_key := Some b1,
                       e_attributes := e_attributes (s_heap st ! e) @ as\<rparr>]\<rparr>"
    by auto
  from b sE el assms(2) have st3: "s_heap st3 = s_heap sE" "s_root st3 = s_root st"
    "s_current st3 = (if snd (xml_check_empty k) then e_parent (s_heap st ! e) else Some e)"
    by (auto simp: xml_close_element_def split: if_splits)
  from c st3 sE el show ?thesis
    by (intro exI[of _ b1] exI[of _ as]) (simp add: xml_close_tag_def)
qed

lemma run_open_tag:
  assumes "s_parser st = Some Content" and "s_cursor st = 0" and "\<not> s_empty st"
    and "wf_tree (s_heap st) (s_current st)"
    and "c \<noteq> CHR ''/''" "c \<noteq> CHR ''?''" "c \<noteq> CHR ''!''" and "CHR ''>'' \<notin> set (c # k)"
    and "xml_parse_loop st (CHR ''<'' # (c # k) @ CHR ''>'' # r) = Inr st'"
  shows "\<exists>s2 p b as. xml_parse_loop s2 r = Inr st' \<and>
           s_parser s2 = Some Content \<and> s_cursor s2 = 0 \<and> s_length s2 = 0 \<and>
           \<not> s_empty s2 \<and> s_root s2 = s_root st \<and>
           length (s_heap s2) = Suc (length (s_heap st)) \<and>
           s_heap s2 ! length (s_heap st) =
             \<lparr>e_key = Some b, e_value = None, e_parent = p, e_children = [],
              e_attributes = as\<rparr> \<and>
           s_current s2 = (if snd (xml_check_empty (c # k)) then p
                           else Some (length (s_heap st))) \<and>
           (case p of None \<Rightarrow> True | Some q \<Rightarrow> q < length (s_heap st)) \<and>
           (\<forall>i<length (s_heap st). e_parent (s_heap s2 ! i) = e_parent (s_heap st ! i))"
proof -
  let ?e = "length (s_heap st)"
  let ?d = "CHR ''<'' # (c # k) @ CHR ''>'' # r"
  let ?sA = "st\<lparr>s_parser := Some TagOpening\<rparr>"
  let ?sB = "?sA\<lparr>s_cursor := 1, s_tag := Some pat_open\<rparr>"
  have "xml_parse_content st ([] @ ?d) = Inr (?sA, ?d)"
    by (subst parse_content_tag) simp_all
  with assms(1) have 1: "xml_parse_loop st ?d = xml_parse_loop ?sA ?d"
    by (subst parse_loop_Cons) (simp_all add: xml_call_parser_def)
  have "xml_parse_tag_opening ?sA ?d =
          then_call (xml_tag_opened ?sB) (\<lambda>s. Inr (s, (c # k) @ CHR ''>'' # r))"
    using tag_opening_open[of ?sA c "k @ CHR ''>'' # r"] assms(2,5-7) by simp
  then have 2: "xml_parse_loop ?sA ?d =
      then_call (xml_tag_opened ?sB) (\<lambda>s. xml_parse_loop s ((c # k) @ CHR ''>'' # r))"
    by (subst parse_loop_Cons) (cases "xml_tag_opened ?sB"; simp_all add: xml_call_parser_def)+
  from assms(9) 1 2 obtain sC where
    op: "xml_tag_opened ?sB = Inr sC"
    and lC: "xml_parse_loop sC ((c # k) @ CHR ''>'' # r) = Inr st'"
    by (cases "xml_tag_opened ?sB") auto
  have ty: "p_type pat_open \<noteq> TAG_ELEMENT_CLOSE"
    by (simp add: pat_open_def TAG_ELEMENT_CLOSE_def)
  from tag_opened_create[OF op _ ty] assms(4) obtain p where
    C: "s_heap sC ! ?e = new_element p" "length (s_heap sC) = Suc ?e"
      "s_current sC = Some ?e" "case p of None \<Rightarrow> True | Some q \<Rightarrow> q < ?e"
      "\<forall>i<?e. e_parent (s_heap sC ! i) = e_parent (s_heap st ! i)"
      "s_empty sC = s_empty st" "s_root sC = s_root st"
    by (auto cong: option.case_cong)
  note oC = tag_opened_ok[OF op]
  from oC have tC: "s_tag sC = Some pat_open" "s_cursor sC = 0" "s_parser sC = Some TagBody"
    "s_length sC = 0" by simp_all
  let ?sD = "sC\<lparr>s_heap := (s_heap sC)[?e := (s_heap sC ! ?e)\<lparr>e_key := Some (c # k)\<rparr>],
                   s_length := length (c # k)\<rparr>"
  have ka: "xml_key_append sC (c # k) = Inr ?sD"
    by (rule key_append_fresh) (simp_all add: tC C new_element_def)
  have cl: "rdc (p_close pat_open) 0 = CHR ''>''" "p_close pat_open = ''>''"
    by (simp_all add: pat_open_def rdc_def)
  have tm: "xml_tag_match sC pat_open (c # k) =
      then_call (xml_tag_finish (?sD\<lparr>s_cursor := 1\<rparr>) pat_open) (\<lambda>s. Inr (s, True))"
    by (cases "xml_tag_finish (?sD\<lparr>s_cursor := 1\<rparr>) pat_open")
       (simp_all add: xml_tag_match_def ka tC cl rdc_def NUL_def xml_tag_complete_def Let_def)
  let ?P = "\<lambda>x. x \<noteq> rdc (p_close pat_open) 0"
  have tw: "takeWhile ?P ((c # k) @ CHR ''>'' # r) = c # k"
    and dw: "dropWhile ?P ((c # k) @ CHR ''>'' # r) = CHR ''>'' # r"
    unfolding cl(1)
    using assms(8) takeWhile_neq_append[of "CHR ''>''" "c # k" "CHR ''>'' # r"]
      dropWhile_neq_append[of "CHR ''>''" "c # k" r] by simp_all
  have len: "length (takeWhile ?P ((c # k) @ CHR ''>'' # r)) < length ((c # k) @ CHR ''>'' # r)"
    unfolding tw by simp
  note bf = tag_body_found[OF tC(1,2) len, unfolded tw dw tm]
  have fb: "xml_parse_tag_body sC ((c # k) @ CHR ''>'' # r) =
      then_call (xml_tag_finish (?sD\<lparr>s_cursor := 1\<rparr>) pat_open) (\<lambda>s. Inr (s, r))"
    unfolding bf
    by (cases "xml_tag_finish (?sD\<lparr>s_cursor := 1\<rparr>) pat_open") simp_all
  have 3: "xml_parse_loop sC ((c # k) @ CHR ''>'' # r) =
      then_call (xml_tag_finish (?sD\<lparr>s_cursor := 1\<rparr>) pat_open) (\<lambda>s. xml_parse_loop s r)"
  proof -
    have cp: "xml_call_parser sC ((c # k) @ CHR ''>'' # r) =
        then_call (xml_tag_finish (?sD\<lparr>s_cursor := 1\<rparr>) pat_open) (\<lambda>s. Inr (s, r))"
      unfolding xml_call_parser_def tC(3) fb by simp
    have ne: "(c # k) @ CHR ''>'' # r \<noteq> []" by simp
    show ?thesis
      unfolding parse_loop_Cons[OF ne] cp
      by (cases "xml_tag_finish (?sD\<lparr>s_cursor := 1\<rparr>) pat_open") simp_all
  qed
  from lC 3 obtain s2 where
    fin: "xml_tag_finish (?sD\<lparr>s_cursor := 1\<rparr>) pat_open = Inr s2"
    and l2: "xml_parse_loop s2 r = Inr st'"
    by (cases "xml_tag_finish (?sD\<lparr>s_cursor := 1\<rparr>) pat_open") auto
  from tag_finish_open_effect[OF fin, of ?e "c # k"] C assms(3)
  obtain b as where
    F: "s_heap s2 = (s_heap (?sD\<lparr>s_cursor := 1\<rparr>))[?e := (s_heap (?sD\<lparr>s_cursor := 1\<rparr>) ! ?e)
           \<lparr>e_key := Some b,
            e_attributes := e_attributes (s_heap (?sD\<lparr>s_cursor := 1\<rparr>) ! ?e) @ as\<rparr>]"
      "s_current s2 = (if snd (xml_check_empty (c # k))
           then e_parent (s_heap (?sD\<lparr>s_cursor := 1\<rparr>) ! ?e) else Some ?e)"
      "s_parser s2 = Some Content" "s_cursor s2 = 0" "s_length s2 = 0" "\<not> s_empty s2"
      "s_root s2 = s_root (?sD\<lparr>s_cursor := 1\<rparr>)"
    by auto
  from F C have
    "xml_parse_loop s2 r = Inr st' \<and>
           s_parser s2 = Some Content \<and> s_cursor s2 = 0 \<and> s_length s2 = 0 \<and>
           \<not> s_empty s2 \<and> s_root s2 = s_root st \<and>
           length (s_heap s2) = Suc ?e \<and>
           s_heap s2 ! ?e =
             \<lparr>e_key = Some b, e_value = None, e_parent = p, e_children = [],
              e_attributes = as\<rparr> \<and>
           s_current s2 = (if snd (xml_check_empty (c # k)) then p else Some ?e) \<and>
           (case p of None \<Rightarrow> True | Some q \<Rightarrow> q < ?e) \<and>
           (\<forall>i<?e. e_parent (s_heap s2 ! i) = e_parent (s_heap st ! i))"
    using l2 by (simp add: new_element_def)
  then show ?thesis by blast
qed


lemma parse_chunk_zero_split:
  assumes "xml_parse_chunk xml_state_zero (Some pre) = Inr st"
  shows "xml_parse_chunk xml_state_zero (Some (pre @ x)) = xml_parse_loop st x"
proof -
  let ?st0 = "\<lparr>s_root = Some 0, s_current = Some 0, s_tag = None, s_length = 0,
       s_cursor = 0, s_empty = False, s_parser = Some Content,
       s_heap = [new_element None]\<rparr>"
  have i0: "len_inv ?st0" by (simp add: len_inv_def dest_ok_def new_element_def)
  from assms have "xml_parse_loop ?st0 pre = Inr st" by (simp add: parse_chunk_zero)
  then show ?thesis
    unfolding parse_chunk_zero parse_loop_append[OF i0, of pre x] by simp
qed

lemma parse_loop_split:
  assumes "len_inv st" and "xml_parse_loop st (a @ b) = Inr st'"
  shows "\<exists>s. xml_parse_loop st a = Inr s \<and> xml_parse_loop s b = Inr st'"
  using assms(2) unfolding parse_loop_append[OF assms(1), of a b]
  by (cases "xml_parse_loop st a") simp_all


subsection \<open>Self-closing elements\<close>





subsection \<open>The constraints of a path segment\<close>

declare xml_query_loop.simps [simp del]

lemma rdc_drop: "rdc b i = (case drop i b of [] \<Rightarrow> NUL | c # _ \<Rightarrow> c)"
proof (cases "i < length b")
  case True
  then have "drop i b = b ! i # drop (Suc i) b" by (simp add: Cons_nth_drop_Suc)
  with True show ?thesis by (simp add: rdc_def)
next
  case False
  then show ?thesis by (simp add: rdc_def)
qed

lemma takeWhile_stop:
  assumes "\<forall>x\<in>set k. P x" and "z = [] \<or> \<not> P (hd z)"
  shows "takeWhile P (k @ z) = k"
  using assms by (cases z) (auto simp: takeWhile_append2)

lemma split_at_none: "c \<notin> set a \<Longrightarrow> split_at c a = [a]"
  by (induction a) auto

lemma split_at_append: "c \<notin> set a \<Longrightarrow> split_at c (a @ c # r) = a # split_at c r"
  by (induction a) auto


lemma query_round:
  assumes D: "drop (Suc sep) path = item @ z"
    and na: "CHR ''&'' \<notin> set item" and ns: "CHR ''/'' \<notin> set item" and nn: "NUL \<notin> set item"
    and z: "z = [] \<or> hd z = CHR ''&'' \<or> hd z = CHR ''/''"
  shows "\<exists>q. q_rep q (constraint_of item) \<and>
           xml_query_loop path sep stop qs =
             (if rdc path (Suc sep + length item) \<noteq> NUL \<and> Suc sep + length item < stop
              then xml_query_loop path (Suc sep + length item) stop (q # qs) else q # qs)"
proof -
  define k where "k = takeWhile (\<lambda>c. c \<noteq> CHR ''='') item"
  define it where "it = dropWhile (\<lambda>c. c \<noteq> CHR ''='') item"
  have item: "item = k @ it" by (simp add: k_def it_def)
  have ksub: "set k \<subseteq> set item" unfolding k_def by (auto dest: set_takeWhileD)
  have keq: "CHR ''='' \<notin> set k" unfolding k_def by (auto dest: set_takeWhileD)
  have ith: "it = [] \<or> hd it = CHR ''=''"
    unfolding it_def using hd_dropWhile[of "\<lambda>c. c \<noteq> CHR ''=''" item] by auto
  let ?P = "\<lambda>c. c \<noteq> NUL \<and> c \<notin> set ''=&/''"
  have kP: "\<forall>x\<in>set k. ?P x" using ksub keq na ns nn by auto
  have stopk: "it @ z = [] \<or> \<not> ?P (hd (it @ z))"
    using ith z by (cases it) auto
  have D1: "drop (Suc sep) path = k @ (it @ z)" using D item by simp
  have kl: "strcspn_at path (Suc sep) ''=&/'' = length k"
    unfolding strcspn_at_def D1 takeWhile_stop[OF kP stopk] ..
  have Dv: "drop (Suc sep + length k) path = it @ z"
    using D1 by (metis append_eq_conv_conj drop_drop add.commute)
  show ?thesis
  proof (cases it)
    case Nil
    then have ik: "item = k" using item by simp
    have co: "constraint_of item = (k, None)"
      using Nil by (simp add: constraint_of_def k_def[symmetric] it_def[symmetric])
    have rv: "rdc path (Suc sep + length k) \<noteq> CHR ''=''"
      unfolding rdc_drop Dv using Nil z by (cases z) (auto simp: NUL_def)
    let ?q = "\<lparr>q_key = drop (Suc sep) path, q_key_len = length k,
                 q_value = None, q_value_len = 0\<rparr>"
    have "q_rep ?q (constraint_of item)"
      unfolding co by (simp add: q_rep_def D1)
    moreover have "xml_query_loop path sep stop qs =
             (if rdc path (Suc sep + length item) \<noteq> NUL \<and> Suc sep + length item < stop
              then xml_query_loop path (Suc sep + length item) stop (?q # qs) else ?q # qs)"
      using rv by (subst xml_query_loop.simps) (simp add: Let_def kl ik)
    ultimately show ?thesis by blast
  next
    case (Cons e val)
    with ith have it: "it = CHR ''='' # val" by simp
    have co: "constraint_of item = (k, Some val)"
      using it by (simp add: constraint_of_def k_def[symmetric] it_def[symmetric])
    have rv: "rdc path (Suc sep + length k) = CHR ''=''"
      unfolding rdc_drop Dv using it by simp
    let ?Q = "\<lambda>c. c \<noteq> NUL \<and> c \<notin> set ''&/''"
    have vsub: "set val \<subseteq> set item" using item it by auto
    then have vQ: "\<forall>x\<in>set val. ?Q x" using na ns nn by auto
    have stopv: "z = [] \<or> \<not> ?Q (hd z)" using z by auto
    have Dw: "drop (Suc (Suc sep + length k)) path = val @ z"
      using Dv it by (metis drop_Suc tl_drop list.sel(3) append_Cons)
    have vl: "strcspn_at path (Suc (Suc sep + length k)) ''&/'' = length val"
      unfolding strcspn_at_def Dw takeWhile_stop[OF vQ stopv] ..
    have li: "length item = length k + 1 + length val" using item it by simp
    let ?q = "\<lparr>q_key = drop (Suc sep) path, q_key_len = length k,
                 q_value = Some (drop (Suc (Suc sep + length k)) path),
                 q_value_len = length val\<rparr>"
    have "q_rep ?q (constraint_of item)"
      unfolding co by (simp add: q_rep_def D1) (simp add: Dw[simplified])
    moreover have "xml_query_loop path sep stop qs =
             (if rdc path (Suc sep + length item) \<noteq> NUL \<and> Suc sep + length item < stop
              then xml_query_loop path (Suc sep + length item) stop (?q # qs) else ?q # qs)"
      using rv vl by (subst xml_query_loop.simps) (simp add: Let_def kl li ac_simps)
    ultimately show ?thesis by blast
  qed
qed


lemma query_loop_spec:
  assumes "drop (Suc sep) path = s @ rest" and "CHR ''/'' \<notin> set s" and "NUL \<notin> set s"
    and "rest = [] \<or> hd rest = CHR ''/''" and "stop = Suc sep + length s"
    and "list_all2 q_rep qs cs"
  shows "list_all2 q_rep (xml_query_loop path sep stop qs)
           (rev (map constraint_of (split_at (CHR ''&'') s)) @ cs)"
  using assms
proof (induction "length s" arbitrary: s sep qs cs rule: less_induct)
  case less
  define item where "item = takeWhile (\<lambda>c. c \<noteq> CHR ''&'') s"
  define tail where "tail = dropWhile (\<lambda>c. c \<noteq> CHR ''&'') s"
  have s: "s = item @ tail" by (simp add: item_def tail_def)
  have isub: "set item \<subseteq> set s" unfolding item_def by (auto dest: set_takeWhileD)
  have na: "CHR ''&'' \<notin> set item" unfolding item_def by (auto dest: set_takeWhileD)
  from isub less.prems(2,3) have ns: "CHR ''/'' \<notin> set item" and nn: "NUL \<notin> set item"
    by auto
  have th: "tail = [] \<or> hd tail = CHR ''&''"
    unfolding tail_def using hd_dropWhile[of "\<lambda>c. c \<noteq> CHR ''&''" s] by auto
  have D: "drop (Suc sep) path = item @ (tail @ rest)"
    using less.prems(1) s by simp
  have z: "tail @ rest = [] \<or> hd (tail @ rest) = CHR ''&'' \<or> hd (tail @ rest) = CHR ''/''"
    using th less.prems(4) by (cases tail) auto
  from query_round[OF D na ns nn z, of stop qs] obtain q where
    q: "q_rep q (constraint_of item)"
    and eq: "xml_query_loop path sep stop qs =
             (if rdc path (Suc sep + length item) \<noteq> NUL \<and> Suc sep + length item < stop
              then xml_query_loop path (Suc sep + length item) stop (q # qs) else q # qs)"
    by blast
  have Dt: "drop (Suc sep + length item) path = tail @ rest"
    using D by (metis append_eq_conv_conj drop_drop add.commute)
  show ?case
  proof (cases tail)
    case Nil
    then have si: "s = item" using s by simp
    then have "\<not> Suc sep + length item < stop" using less.prems(5) by simp
    with eq have r: "xml_query_loop path sep stop qs = q # qs" by simp
    have sp: "split_at (CHR ''&'') s = [item]"
      using na si by (simp add: split_at_none)
    show ?thesis unfolding r sp using q less.prems(6) by simp
  next
    case (Cons e r)
    with th have tl: "tail = CHR ''&'' # r" by simp
    have lt: "Suc sep + length item < stop" using less.prems(5) s tl by simp
    have "rdc path (Suc sep + length item) = CHR ''&''"
      unfolding rdc_drop Dt using tl by simp
    then have nz: "rdc path (Suc sep + length item) \<noteq> NUL" by (simp add: NUL_def)
    from eq lt nz have r1: "xml_query_loop path sep stop qs =
        xml_query_loop path (Suc sep + length item) stop (q # qs)" by simp
    have Dr: "drop (Suc (Suc sep + length item)) path = r @ rest"
      using Dt tl by (metis drop_Suc tl_drop list.sel(3) append_Cons)
    have rs: "set r \<subseteq> set s" using s tl by auto
    have len: "length r < length s" using s tl by simp
    have st: "stop = Suc (Suc sep + length item) + length r"
      using less.prems(5) s tl by simp
    have q2: "list_all2 q_rep (q # qs) (constraint_of item # cs)"
      using q less.prems(6) by simp
    have sp: "split_at (CHR ''&'') s = item # split_at (CHR ''&'') r"
      unfolding s tl using na by (rule split_at_append)
    from less.hyps[OF len Dr _ _ less.prems(4) st q2] rs less.prems(2,3)
    have "list_all2 q_rep (xml_query_loop path (Suc sep + length item) stop (q # qs))
            (rev (map constraint_of (split_at (CHR ''&'') r)) @ constraint_of item # cs)"
      by auto
    then show ?thesis unfolding r1 sp by simp
  qed
qed

lemma first_path_segment_spec:
  assumes "NUL \<notin> set p"
  shows "\<exists>seg. xml_first_path_segment seg_zero p = (seg, segment_rest p) \<and>
           tag_len seg = length (segment_name p) \<and>
           list_all2 q_rep (query seg) (rev (segment_constraints p))"
proof -
  define t where "t = segment_text p"
  define rest where "rest = dropWhile (\<lambda>c. c \<noteq> CHR ''/'') p"
  have p: "p = t @ rest" by (simp add: t_def rest_def segment_text_def)
  have ts: "CHR ''/'' \<notin> set t" unfolding t_def segment_text_def by (auto dest: set_takeWhileD)
  have rh: "rest = [] \<or> hd rest = CHR ''/''"
    unfolding rest_def using hd_dropWhile[of "\<lambda>c. c \<noteq> CHR ''/''" p] by auto
  have sl: "(case strchr_idx p (CHR ''/'') of
               None \<Rightarrow> (length p, None)
             | Some i \<Rightarrow> (i, Some (drop (i + 1) p))) = (length t, segment_rest p)"
  proof (cases rest)
    case Nil
    then have sr: "segment_rest p = None"
      unfolding segment_rest_def rest_def[symmetric] by simp
    from Nil p have "p = t" by simp
    with ts have "strchr_idx p (CHR ''/'') = None" by (simp add: strchr_idx_none)
    with sr \<open>p = t\<close> show ?thesis by simp
  next
    case (Cons e r)
    with rh have r: "rest = CHR ''/'' # r" by simp
    then have sr: "segment_rest p = Some r"
      unfolding segment_rest_def rest_def[symmetric] by simp
    have ix: "strchr_idx p (CHR ''/'') = Some (length t)"
      unfolding p r using ts by (rule strchr_idx_append)
    have "drop (length t + 1) p = r" unfolding p r by simp
    with sr ix show ?thesis by simp
  qed
  define n where "n = takeWhile (\<lambda>c. c \<noteq> CHR ''?'') t"
  define qt where "qt = dropWhile (\<lambda>c. c \<noteq> CHR ''?'') t"
  have t: "t = n @ qt" by (simp add: n_def qt_def)
  have nq: "CHR ''?'' \<notin> set n" unfolding n_def by (auto dest: set_takeWhileD)
  have sn: "segment_name p = n" by (simp add: segment_name_def n_def t_def)
  show ?thesis
  proof (cases qt)
    case Nil
    then have tn: "t = n" using t by simp
    have sc: "segment_constraints p = []"
      using Nil by (simp add: segment_constraints_def t_def[symmetric] qt_def[symmetric])
    have "strchr_idx p (CHR ''?'') = None \<or>
          (\<exists>j. strchr_idx p (CHR ''?'') = Some j \<and> length t \<le> j)"
      using strchr_idx_ge[of "CHR ''?''" t rest] nq tn p
      by (cases "strchr_idx p (CHR ''?'')") auto
    then show ?thesis
      unfolding xml_first_path_segment_def Let_def sl sc sn
      by (auto simp: seg_zero_def tn)
  next
    case (Cons e q)
    from Cons have "qt \<noteq> []" by simp
    then have "\<not> hd qt \<noteq> CHR ''?''" unfolding qt_def by (rule hd_dropWhile)
    with Cons have qt: "qt = CHR ''?'' # q" by simp
    have sc: "segment_constraints p = map constraint_of (split_at (CHR ''&'') q)"
      using qt by (simp add: segment_constraints_def t_def[symmetric] qt_def[symmetric])
    have pp: "p = n @ CHR ''?'' # (q @ rest)" using p t qt by simp
    have ix: "strchr_idx p (CHR ''?'') = Some (length n)"
      unfolding pp using nq by (rule strchr_idx_append)
    have lt: "length n < length t" using t qt by simp
    have D: "drop (Suc (length n)) p = q @ rest" unfolding pp by simp
    have qs: "CHR ''/'' \<notin> set q" and qn: "NUL \<notin> set q"
      using ts t qt assms pp by auto
    have st: "length t = Suc (length n) + length q" using t qt by simp
    have "list_all2 q_rep (xml_query_loop p (length n) (length t) [])
            (rev (map constraint_of (split_at (CHR ''&'') q)) @ [])"
      by (rule query_loop_spec[OF D qs qn rh st]) simp
    then show ?thesis
      unfolding xml_first_path_segment_def Let_def sl sc sn ix
      using lt by (simp add: seg_zero_def)
  qed
qed


lemma attribute_match_one_spec:
  assumes "q_rep q c"
    and "snd c \<noteq> None \<longrightarrow> (\<forall>a\<in>set as. a_key a = fst c \<longrightarrow> a_value a \<noteq> None)"
  shows "xml_attribute_match_one q as = Inr (constraint_holds as c)"
  using assms(2)
proof (induction as)
  case Nil
  then show ?case by (simp add: constraint_holds_def split: option.splits)
next
  case (Cons a as)
  obtain k v where c: "c = (k, v)" by (cases c)
  from assms(1) c have kl: "q_key_len q = length k" and kt: "take (length k) (q_key q) = k"
    by (simp_all add: q_rep_def)
  have key: "(length (a_key a) = q_key_len q \<and> strncmp_eq (a_key a) (q_key q) (q_key_len q))
               = (a_key a = k)"
    unfolding strncmp_eq_def kl kt by auto
  from Cons have ih: "xml_attribute_match_one q as = Inr (constraint_holds as c)" by simp
  show ?case
  proof (cases v)
    case None
    with assms(1) c have "q_value q = None" by (simp add: q_rep_def)
    with ih key c None show ?thesis
      by (auto simp: constraint_holds_def)
  next
    case (Some val)
    with assms(1) c obtain w where w: "q_value q = Some w" "q_value_len q = length val"
      "take (length val) w = val"
      by (auto simp: q_rep_def split: option.splits)
    show ?thesis
    proof (cases "a_key a = k")
      case False
      with ih key c Some show ?thesis by (auto simp: constraint_holds_def)
    next
      case True
      with Cons.prems c Some obtain av where av: "a_value a = Some av" by auto
      have "(length av = q_value_len q \<and> strncmp_eq av w (q_value_len q)) = (av = val)"
        unfolding strncmp_eq_def w by auto
      with ih key c Some True av w(1) show ?thesis
        by (auto simp: constraint_holds_def)
    qed
  qed
qed

lemma attribute_match_all_spec:
  assumes "list_all2 q_rep qs cs" and "values_present as cs"
  shows "xml_attribute_match_all qs as = Inr (list_all (constraint_holds as) cs)"
  using assms
proof (induction rule: list_all2_induct)
  case Nil
  then show ?case by simp
next
  case (Cons q qs c cs)
  from Cons.prems have h: "snd c \<noteq> None \<longrightarrow> (\<forall>a\<in>set as. a_key a = fst c \<longrightarrow> a_value a \<noteq> None)"
    and vp: "values_present as cs"
    by (simp_all add: values_present_def)
  from attribute_match_one_spec[OF Cons.hyps(1) h] Cons.IH[OF vp]
  show ?case by (simp split: bool.splits)
qed

lemma attribute_match_spec:
  assumes "e < length h" and "list_all2 q_rep (query seg) (rev cs)"
    and "values_present (e_attributes (h ! e)) cs"
  shows "xml_attribute_match h e seg = Inr (list_all (constraint_holds (e_attributes (h ! e))) cs)"
proof -
  from assms(3) have "values_present (e_attributes (h ! e)) (rev cs)"
    by (simp add: values_present_def)
  from attribute_match_all_spec[OF assms(2) this]
  have a: "xml_attribute_match_all (query seg) (e_attributes (h ! e)) =
             Inr (list_all (constraint_holds (e_attributes (h ! e))) cs)"
    by (simp add: list_all_iff)
  show ?thesis
  proof (cases "query seg = []")
    case True
    with assms(2) have "cs = []" by simp
    with True show ?thesis by (simp add: xml_attribute_match_def)
  next
    case False
    with assms(1) a show ?thesis by (simp add: xml_attribute_match_def)
  qed
qed

lemma segment_name_take: "take (length (segment_name p)) p = segment_name p"
proof -
  have a: "segment_text p = segment_name p @ dropWhile (\<lambda>c. c \<noteq> CHR ''?'') (segment_text p)"
    unfolding segment_name_def by simp
  have b: "p = segment_text p @ dropWhile (\<lambda>c. c \<noteq> CHR ''/'') p"
    unfolding segment_text_def by simp
  have "p = segment_name p @ (dropWhile (\<lambda>c. c \<noteq> CHR ''?'') (segment_text p)
              @ dropWhile (\<lambda>c. c \<noteq> CHR ''/'') p)"
    by (subst b, subst a) simp
  then show ?thesis by (metis append_eq_conv_conj)
qed

lemma name_test_spec:
  assumes "e_key (h ! c) = Some k" and "tag_len seg = length (segment_name p)"
  shows "(length (cstr k) = tag_len seg \<and> strncasecmp_eq (cstr k) p (tag_len seg))
           = name_matches h (segment_name p) c"
  using assms by (auto simp: name_matches_def strncasecmp_eq_def segment_name_take)

lemma find_scan_spec:
  assumes "\<forall>c\<in>set cs. c < length h \<and>
             values_present (e_attributes (h ! c)) (segment_constraints p)"
    and "tag_len seg = length (segment_name p)"
    and "list_all2 q_rep (query seg) (rev (segment_constraints p))"
  shows "xml_find_scan h p seg nx cs =
           (case nx of
              None \<Rightarrow> Inr (find (child_matches h p) cs)
            | Some rest \<Rightarrow>
                first_result (map (\<lambda>c. xml_find h c (Some rest)) (filter (child_matches h p) cs)))"
  using assms(1)
proof (induction cs)
  case Nil
  then show ?case by (simp split: option.splits)
next
  case (Cons c cs)
  then have cl: "c < length h"
    and vp: "values_present (e_attributes (h ! c)) (segment_constraints p)"
    and ih: "xml_find_scan h p seg nx cs =
           (case nx of
              None \<Rightarrow> Inr (find (child_matches h p) cs)
            | Some rest \<Rightarrow>
                first_result (map (\<lambda>c. xml_find h c (Some rest)) (filter (child_matches h p) cs)))"
    by simp_all
  note am = attribute_match_spec[OF cl assms(3) vp]
  show ?case
  proof (cases "e_key (h ! c)")
    case None
    then have "\<not> child_matches h p c" by (simp add: child_matches_def name_matches_def)
    with None cl ih show ?thesis by (simp del: xml_find.simps(1) split: option.splits)
  next
    case (Some k)
    note nt = name_test_spec[OF Some assms(2)]
    show ?thesis
    proof (cases "child_matches h p c")
      case True
      then have "name_matches h (segment_name p) c"
        and "list_all (constraint_holds (e_attributes (h ! c))) (segment_constraints p)"
        by (simp_all add: child_matches_def)
      with cl Some nt am ih True show ?thesis
        by (cases nx; cases "xml_find h c nx")
           (auto simp del: xml_find.simps(1) split: option.splits)
    next
      case False
      then have "\<not> name_matches h (segment_name p) c \<or>
        \<not> list_all (constraint_holds (e_attributes (h ! c))) (segment_constraints p)"
        by (simp add: child_matches_def)
      with cl Some nt am ih False show ?thesis
        by (auto simp del: xml_find.simps(1) split: option.splits)
    qed
  qed
qed

lemma find_next_scan_spec:
  assumes "\<forall>e\<in>set es. e < length h \<and>
             values_present (e_attributes (h ! e)) (segment_constraints (last_segment p))"
    and "list_all2 q_rep (query seg) (rev (segment_constraints (last_segment p)))"
  shows "xml_find_next_scan h (Some lk) seg es = Inr (find (sibling_matches h lk p) es)"
  using assms(1)
proof (induction es)
  case Nil
  then show ?case by simp
next
  case (Cons e es)
  then have el: "e < length h"
    and vp: "values_present (e_attributes (h ! e)) (segment_constraints (last_segment p))"
    and ih: "xml_find_next_scan h (Some lk) seg es = Inr (find (sibling_matches h lk p) es)"
    by simp_all
  note am = attribute_match_spec[OF el assms(2) vp]
  show ?case
  proof (cases "e_key (h ! e)")
    case None
    then have "\<not> sibling_matches h lk p e" by (simp add: sibling_matches_def)
    with None el ih show ?thesis by simp
  next
    case (Some k)
    then have sm: "sibling_matches h lk p e =
        (strcasecmp_eq (cstr k) (cstr lk) \<and>
         list_all (constraint_holds (e_attributes (h ! e)))
           (segment_constraints (last_segment p)))"
      by (simp add: sibling_matches_def strcasecmp_eq_def)
    show ?thesis
    proof (cases "sibling_matches h lk p e")
      case True
      with sm Some el am ih show ?thesis by simp
    next
      case False
      with sm Some el am ih show ?thesis by auto
    qed
  qed
qed


lemma parse_doc_cb:
  "xml_parse (Some ''<a><c x='1'>p</c><b x='1'>q</b><b x='2'>r</b><b x='1'>s</b></a>'')
     = Some (doc_cb, 0)"
  by code_simp

text \<open>
  Claim C3: \<open>xml_find\<close> goes through the children of the element in document order.
  The first segment of the path is its text up to the first \<open>/\<close>; the name of the segment
  ends at the first \<open>?\<close>, also when constraints follow it.  A child matches the segment
  when its key matches the name (both have equal length and are equal up to case, so a
  key that is a strict prefix or an extension of the name does not match) and its
  attributes satisfy the constraints.  For a path of one segment the result is the first
  child that matches; for a path that goes on, the children that match are tried in order
  and the first one below which the rest of the path is found (or a fault occurs) decides.
  On the tree of \<open><a><b>1</b><b>2</b></a>\<close> the path \<open>A/B\<close> finds the first \<open>b\<close>; on the tree
  of \<open><a><c x='1'>p</c><b x='1'>q</b>...</a>\<close> the path \<open>A/B?x=1\<close> finds the first \<open>b\<close> and not
  the element \<open>c\<close> before it, which has the attribute as well.
\<close>

theorem C3_find_matches_names:
  assumes "e < length h"
    and "\<forall>c\<in>set (e_children (h ! e)). c < length h \<and>
           values_present (e_attributes (h ! c)) (segment_constraints p)"
    and "p \<noteq> []" and "NUL \<notin> set p"
  shows "xml_find h e (Some p) =
           (case segment_rest p of
              None \<Rightarrow> Inr (find (child_matches h p) (e_children (h ! e)))
            | Some rest \<Rightarrow>
                first_result (map (\<lambda>c. xml_find h c (Some rest))
                  (filter (child_matches h p) (e_children (h ! e))))) \<and>
         (child_matches h p c \<longrightarrow>
            (\<exists>k. e_key (h ! c) = Some k \<and> length (cstr k) = length (segment_name p) \<and>
                 map c_tolower (cstr k) = map c_tolower (segment_name p))) \<and>
         xml_find doc_ab 0 (Some ''A/B'') = Inr (Some 2) \<and>
         xml_find doc_cb 0 (Some ''A/B?x=1'') = Inr (Some 4)"
proof -
  have ex: "xml_find doc_ab 0 (Some ''A/B'') = Inr (Some 2)"
    "xml_find doc_cb 0 (Some ''A/B?x=1'') = Inr (Some 4)"
    by code_simp+
  from first_path_segment_spec[OF assms(4)] obtain seg where
    seg: "xml_first_path_segment seg_zero p = (seg, segment_rest p)"
    and tl: "tag_len seg = length (segment_name p)"
    and qr: "list_all2 q_rep (query seg) (rev (segment_constraints p))"
    by blast
  have "xml_find h e (Some p) = xml_find_scan h p seg (segment_rest p) (e_children (h ! e))"
    using assms(1,3) seg by simp
  also have "\<dots> = (case segment_rest p of
              None \<Rightarrow> Inr (find (child_matches h p) (e_children (h ! e)))
            | Some rest \<Rightarrow>
                first_result (map (\<lambda>c. xml_find h c (Some rest))
                  (filter (child_matches h p) (e_children (h ! e)))))"
    by (rule find_scan_spec[OF assms(2) tl qr])
  finally have main: "xml_find h e (Some p) =
           (case segment_rest p of
              None \<Rightarrow> Inr (find (child_matches h p) (e_children (h ! e)))
            | Some rest \<Rightarrow>
                first_result (map (\<lambda>c. xml_find h c (Some rest))
                  (filter (child_matches h p) (e_children (h ! e)))))" .
  have nm: "child_matches h p c \<longrightarrow>
            (\<exists>k. e_key (h ! c) = Some k \<and> length (cstr k) = length (segment_name p) \<and>
                 map c_tolower (cstr k) = map c_tolower (segment_name p))"
    by (auto simp: child_matches_def name_matches_def split: option.splits)
  from main nm ex show ?thesis by blast
qed

theorem C3_find_matches_names_witness:
  "1 < length doc_cb \<and> e_children (doc_cb ! 1) = [2, 4, 6, 8] \<and> length doc_cb = 10 \<and>
   segment_name ''B?x=1'' = ''B'' \<and> segment_constraints ''B?x=1'' = [(''x'', Some ''1'')] \<and>
   segment_rest ''B?x=1'' = None \<and>
   xml_find doc_cb 1 (Some ''B?x=1'') = Inr (Some 4) \<and>
   xml_find doc_cb 1 (Some ''B?x=2'') = Inr (Some 6) \<and>
   xml_find doc_cb 1 (Some ''bb?x=1'') = Inr None \<and>
   xml_find doc_cb 1 (Some ''B'') = Inr (Some 4) \<and>
   xml_find doc_cb 1 (Some ''c?x'') = Inr (Some 2)"
proof -
  have h1: "1 < length doc_cb" and ch: "e_children (doc_cb ! 1) = [2, 4, 6, 8]"
    and ln: "length doc_cb = 10"
    by (simp_all add: doc_cb_def)
  have sg: "segment_name ''B?x=1'' = ''B''"
    "segment_constraints ''B?x=1'' = [(''x'', Some ''1'')]"
    "segment_rest ''B?x=1'' = None"
    by code_simp+
  have r1: "xml_find doc_cb 1 (Some ''B?x=1'') = Inr (Some 4)"
  proof -
    have a: "\<forall>c\<in>set (e_children (doc_cb ! 1)). c < length doc_cb \<and>
           values_present (e_attributes (doc_cb ! c)) (segment_constraints ''B?x=1'')"
      unfolding ch by code_simp
    have b: "''B?x=1'' \<noteq> []" and c: "NUL \<notin> set ''B?x=1''" by (simp_all add: NUL_def)
    have d: "segment_rest ''B?x=1'' = None" by code_simp
    have e: "find (child_matches doc_cb ''B?x=1'') (e_children (doc_cb ! 1)) = Some 4"
      by code_simp
    from C3_find_matches_names[OF h1 a b c, of 0, THEN conjunct1]
    show ?thesis by (simp only: d e option.case)
  qed
  have r2: "xml_find doc_cb 1 (Some ''B?x=2'') = Inr (Some 6)"
  proof -
    have a: "\<forall>c\<in>set (e_children (doc_cb ! 1)). c < length doc_cb \<and>
           values_present (e_attributes (doc_cb ! c)) (segment_constraints ''B?x=2'')"
      unfolding ch by code_simp
    have b: "''B?x=2'' \<noteq> []" and c: "NUL \<notin> set ''B?x=2''" by (simp_all add: NUL_def)
    have d: "segment_rest ''B?x=2'' = None" by code_simp
    have e: "find (child_matches doc_cb ''B?x=2'') (e_children (doc_cb ! 1)) = Some 6"
      by code_simp
    from C3_find_matches_names[OF h1 a b c, of 0, THEN conjunct1]
    show ?thesis by (simp only: d e option.case)
  qed
  have r3: "xml_find doc_cb 1 (Some ''bb?x=1'') = Inr None"
  proof -
    have a: "\<forall>c\<in>set (e_children (doc_cb ! 1)). c < length doc_cb \<and>
           values_present (e_attributes (doc_cb ! c)) (segment_constraints ''bb?x=1'')"
      unfolding ch by code_simp
    have b: "''bb?x=1'' \<noteq> []" and c: "NUL \<notin> set ''bb?x=1''" by (simp_all add: NUL_def)
    have d: "segment_rest ''bb?x=1'' = None" by code_simp
    have e: "find (child_matches doc_cb ''bb?x=1'') (e_children (doc_cb ! 1)) = None"
      by code_simp
    from C3_find_matches_names[OF h1 a b c, of 0, THEN conjunct1]
    show ?thesis by (simp only: d e option.case)
  qed
  have r4: "xml_find doc_cb 1 (Some ''B'') = Inr (Some 4)"
  proof -
    have a: "\<forall>c\<in>set (e_children (doc_cb ! 1)). c < length doc_cb \<and>
           values_present (e_attributes (doc_cb ! c)) (segment_constraints ''B'')"
      unfolding ch by code_simp
    have b: "''B'' \<noteq> []" and c: "NUL \<notin> set ''B''" by (simp_all add: NUL_def)
    have d: "segment_rest ''B'' = None" by code_simp
    have e: "find (child_matches doc_cb ''B'') (e_children (doc_cb ! 1)) = Some 4"
      by code_simp
    from C3_find_matches_names[OF h1 a b c, of 0, THEN conjunct1]
    show ?thesis by (simp only: d e option.case)
  qed
  have r5: "xml_find doc_cb 1 (Some ''c?x'') = Inr (Some 2)"
  proof -
    have a: "\<forall>c\<in>set (e_children (doc_cb ! 1)). c < length doc_cb \<and>
           values_present (e_attributes (doc_cb ! c)) (segment_constraints ''c?x'')"
      unfolding ch by code_simp
    have b: "''c?x'' \<noteq> []" and c: "NUL \<notin> set ''c?x''" by (simp_all add: NUL_def)
    have d: "segment_rest ''c?x'' = None" by code_simp
    have e: "find (child_matches doc_cb ''c?x'') (e_children (doc_cb ! 1)) = Some 2"
      by code_simp
    from C3_find_matches_names[OF h1 a b c, of 0, THEN conjunct1]
    show ?thesis by (simp only: d e option.case)
  qed
  from h1 ch ln sg r1 r2 r3 r4 r5 show ?thesis by (intro conjI)
qed

text \<open>
  Claim C5.  On the tree of \<open><a><b>1</b><b>2</b></a>\<close>, \<open>xml_find\<close> with \<open>a/b\<close> gives the
  first \<open>b\<close>; \<open>xml_find_next\<close> from it gives the second \<open>b\<close>, whose content is \<open>2\<close>, and
  from the second \<open>b\<close> it gives no match.  In general, for a path that is not empty and a
  last match with a key: when the first of the last match's following siblings that has a
  key equal to the last match's key up to case and attributes that satisfy every
  constraint of the last segment of the path is \<open>e\<close>, then \<open>xml_find_next\<close> returns \<open>e\<close>.
  On the tree of \<open><a><c x='1'>p</c><b x='1'>q</b><b x='2'>r</b><b x='1'>s</b></a>\<close> and the
  path \<open>a/b?x=1\<close>, the next match after the first \<open>b\<close> is the third \<open>b\<close>: the second one
  has the name and not the attribute value.
\<close>

theorem C5_find_next_siblings_first:
  assumes "l < length h" and "p \<noteq> []" and "NUL \<notin> set p" and "e_key (h ! l) = Some lk"
    and "\<forall>s\<in>set (next_siblings h l). s < length h \<and>
           values_present (e_attributes (h ! s)) (segment_constraints (last_segment p))"
    and "find (sibling_matches h lk p) (next_siblings h l) = Some e"
  shows "xml_find_next h (Some l) (Some p) = Some (Inr (Some e)) \<and>
         xml_find doc_ab 0 (Some ''a/b'') = Inr (Some 2) \<and>
         xml_find_next doc_ab (Some 2) (Some ''a/b'') = Some (Inr (Some 4)) \<and>
         xml_content doc_ab (Some 4) = Some (Inr (Some ''2'')) \<and>
         xml_find_next doc_ab (Some 4) (Some ''a/b'') = Some (Inr None) \<and>
         xml_find doc_cb 0 (Some ''a/b?x=1'') = Inr (Some 4) \<and>
         xml_find_next doc_cb (Some 4) (Some ''a/b?x=1'') = Some (Inr (Some 8)) \<and>
         xml_find_next doc_cb (Some 8) (Some ''a/b?x=1'') = Some (Inr None)"
proof -
  have ex: "xml_find doc_ab 0 (Some ''a/b'') = Inr (Some 2) \<and>
         xml_find_next doc_ab (Some 2) (Some ''a/b'') = Some (Inr (Some 4)) \<and>
         xml_content doc_ab (Some 4) = Some (Inr (Some ''2'')) \<and>
         xml_find_next doc_ab (Some 4) (Some ''a/b'') = Some (Inr None) \<and>
         xml_find doc_cb 0 (Some ''a/b?x=1'') = Inr (Some 4) \<and>
         xml_find_next doc_cb (Some 4) (Some ''a/b?x=1'') = Some (Inr (Some 8)) \<and>
         xml_find_next doc_cb (Some 8) (Some ''a/b?x=1'') = Some (Inr None)"
    by code_simp
  have "set (last_segment p) \<subseteq> set p"
    unfolding last_segment_def by (auto dest: set_takeWhileD)
  with assms(3) have nn: "NUL \<notin> set (last_segment p)" by auto
  from first_path_segment_spec[OF nn] obtain seg where
    seg: "fst (xml_first_path_segment seg_zero (last_segment p)) = seg"
    and qr: "list_all2 q_rep (query seg) (rev (segment_constraints (last_segment p)))"
    by force
  have "xml_find_next_scan h (Some lk) seg (next_siblings h l) = Inr (Some e)"
    using find_next_scan_spec[OF assms(5) qr, of lk] assms(6) by simp
  with assms(1,2,4) seg have "xml_find_next h (Some l) (Some p) = Some (Inr (Some e))"
    by (simp add: xml_find_next_def xml_find_next_from_def
          xml_find_next_rec.simps[of h "Some p" "Next_from (Some l) None"]
          last_path_segment_last)
  with ex show ?thesis by simp
qed

theorem C5_find_next_siblings_first_witness:
  "4 < length doc_cb \<and> e_key (doc_cb ! 4) = Some (''b'' @ [NUL] @ ''x'' @ [NUL, CHR 0x27] @ ''1'' @ [NUL]) \<and>
   next_siblings doc_cb 4 = [6, 8] \<and> last_segment ''a/b?x=1'' = ''b?x=1'' \<and>
   segment_constraints ''b?x=1'' = [(''x'', Some ''1'')] \<and>
   e_attributes (doc_cb ! 6) = [\<lparr>a_key = ''x'', a_value = Some ''2''\<rparr>] \<and>
   e_attributes (doc_cb ! 8) = [\<lparr>a_key = ''x'', a_value = Some ''1''\<rparr>] \<and>
   xml_find_next doc_cb (Some 4) (Some ''a/b?x=1'') = Some (Inr (Some 8))"
proof -
  let ?lk = "''b'' @ [NUL] @ ''x'' @ [NUL, CHR 0x27] @ ''1'' @ [NUL]"
  have h1: "4 < length doc_cb" and h2: "''a/b?x=1'' \<noteq> []" and h3: "NUL \<notin> set ''a/b?x=1''"
    and h4: "e_key (doc_cb ! 4) = Some ?lk"
    and at: "e_attributes (doc_cb ! 6) = [\<lparr>a_key = ''x'', a_value = Some ''2''\<rparr>]"
      "e_attributes (doc_cb ! 8) = [\<lparr>a_key = ''x'', a_value = Some ''1''\<rparr>]"
    by (simp_all add: doc_cb_def NUL_def)
  have ns: "next_siblings doc_cb 4 = [6, 8]" by code_simp
  have ls: "last_segment ''a/b?x=1'' = ''b?x=1''" by code_simp
  have sc: "segment_constraints ''b?x=1'' = [(''x'', Some ''1'')]" by code_simp
  have h5: "\<forall>s\<in>set (next_siblings doc_cb 4). s < length doc_cb \<and>
           values_present (e_attributes (doc_cb ! s)) (segment_constraints (last_segment ''a/b?x=1''))"
    unfolding ns by code_simp
  have h6: "find (sibling_matches doc_cb ?lk ''a/b?x=1'') (next_siblings doc_cb 4) = Some 8"
    by code_simp
  from C5_find_next_siblings_first[OF h1 h2 h3 h4 h5 h6] h1 h4 ns ls sc at
  show ?thesis by simp
qed

subsection \<open>A tag from its first byte\<close>

lemma pattern_open_hd:
  assumes "t \<in> set xml_tag_patterns"
  shows "p_open t = CHR ''<'' # tl (p_open t)"
  using assms
  by (auto simp: xml_tag_patterns_def pat_open_def pat_close_def pat_pi_def pat_type_def
        pat_comment_def pat_cdata_def)

lemma tag_opening_pattern:
  assumes "s_cursor st = 0" and "t \<in> set xml_tag_patterns"
    and "find_pattern (length (p_open t)) c xml_tag_patterns = None"
  shows "xml_parse_tag_opening st (p_open t @ c # r) =
           then_call (xml_tag_opened (st\<lparr>s_cursor := length (p_open t), s_tag := Some t\<rparr>))
             (\<lambda>s. Inr (s, c # r))"
proof -
  from assms(2) consider "t = pat_open" | "t = pat_close" | "t = pat_pi" | "t = pat_type"
    | "t = pat_comment" | "t = pat_cdata"
    by (auto simp: xml_tag_patterns_def)
  then show ?thesis
  proof cases
    case 1
    with assms(1,3) show ?thesis
      by (cases "xml_tag_opened (st\<lparr>s_cursor := length (p_open t), s_tag := Some t\<rparr>)")
         (simp_all add: xml_tag_patterns_def pat_open_def pat_close_def pat_pi_def
            pat_type_def pat_comment_def pat_cdata_def rdc_def split: if_splits)
  next
    case 2
    with assms(1,3) show ?thesis
      by (cases "xml_tag_opened (st\<lparr>s_cursor := length (p_open t), s_tag := Some t\<rparr>)")
         (simp_all add: xml_tag_patterns_def pat_open_def pat_close_def pat_pi_def
            pat_type_def pat_comment_def pat_cdata_def rdc_def split: if_splits)
  next
    case 3
    with assms(1,3) show ?thesis
      by (cases "xml_tag_opened (st\<lparr>s_cursor := length (p_open t), s_tag := Some t\<rparr>)")
         (simp_all add: xml_tag_patterns_def pat_open_def pat_close_def pat_pi_def
            pat_type_def pat_comment_def pat_cdata_def rdc_def split: if_splits)
  next
    case 4
    with assms(1,3) show ?thesis
      by (cases "xml_tag_opened (st\<lparr>s_cursor := length (p_open t), s_tag := Some t\<rparr>)")
         (simp_all add: xml_tag_patterns_def pat_open_def pat_close_def pat_pi_def
            pat_type_def pat_comment_def pat_cdata_def rdc_def split: if_splits)
  next
    case 5
    with assms(1,3) show ?thesis
      by (cases "xml_tag_opened (st\<lparr>s_cursor := length (p_open t), s_tag := Some t\<rparr>)")
         (simp_all add: xml_tag_patterns_def pat_open_def pat_close_def pat_pi_def
            pat_type_def pat_comment_def pat_cdata_def rdc_def split: if_splits)
  next
    case 6
    with assms(1,3) show ?thesis
      by (cases "xml_tag_opened (st\<lparr>s_cursor := length (p_open t), s_tag := Some t\<rparr>)")
         (simp_all add: xml_tag_patterns_def pat_open_def pat_close_def pat_pi_def
            pat_type_def pat_comment_def pat_cdata_def rdc_def split: if_splits)
  qed
qed

text \<open>
  The bytes that continue no opening pattern behind a whole opening pattern: behind \<open><\<close>
  all but \<open>/\<close>, \<open>?\<close> and \<open>!\<close>; behind \<open></\<close>, \<open><?\<close> and \<open><!\<close> all but \<open>-\<close> and \<open>[\<close> (the
  third bytes of \<open><!--\<close> and \<open><![CDATA[\<close>); behind \<open><!--\<close> all but \<open>D\<close> (the fifth byte of
  \<open><![CDATA[\<close>); behind \<open><![CDATA[\<close> all.
\<close>

lemma opener_settled_iff:
  assumes "t \<in> set xml_tag_patterns"
  shows "(find_pattern (length (p_open t)) c xml_tag_patterns = None) =
           (if t = pat_open then c \<notin> set ''/?!''
            else if t = pat_comment then c \<noteq> CHR ''D''
            else if t = pat_cdata then True
            else c \<notin> set ''-['')"
proof -
  note d = xml_tag_patterns_def pat_open_def pat_close_def pat_pi_def pat_type_def
    pat_comment_def pat_cdata_def rdc_def
  from assms consider "t = pat_open" | "t = pat_close" | "t = pat_pi" | "t = pat_type"
    | "t = pat_comment" | "t = pat_cdata"
    by (auto simp: xml_tag_patterns_def)
  then show ?thesis
  proof cases
    case 1
    then show ?thesis by (auto simp: d)
  next
    case 2
    then show ?thesis by (auto simp: d)
  next
    case 3
    then show ?thesis by (auto simp: d)
  next
    case 4
    then show ?thesis by (auto simp: d)
  next
    case 5
    then show ?thesis by (simp add: d)
  next
    case 6
    then show ?thesis by (simp add: d)
  qed
qed

lemma tag_opened_new:
  assumes "xml_tag_opened st = Inr sC" and "s_tag st = Some t"
    and "p_type t \<noteq> TAG_ELEMENT_CLOSE"
  shows "s_current sC = Some (length (s_heap st)) \<and>
         length (s_heap sC) = Suc (length (s_heap st)) \<and>
         e_key (s_heap sC ! length (s_heap st)) = None \<and>
         s_tag sC = Some t \<and> s_cursor sC = 0 \<and> s_length sC = 0 \<and>
         s_parser sC = Some TagBody"
  using assms
  by (auto simp: xml_tag_opened_def xml_close_element_def xml_element_create_def Let_def
        new_element_def nth_append split: if_splits option.splits)


lemma check_empty_loop_plain:
  assumes "\<forall>x\<in>set v. x \<notin> set WHITESPACE \<and> x \<noteq> CHR ''/''" and "n \<le> length v"
  shows "xml_check_empty_loop v n = (v, False)"
proof (cases n)
  case 0
  then show ?thesis by simp
next
  case (Suc m)
  with assms(2) have "m < length v" by simp
  then have "v ! m \<in> set v" by simp
  with assms(1) have "v ! m \<notin> set WHITESPACE" "v ! m \<noteq> CHR ''/''" by auto
  with Suc \<open>m < length v\<close> show ?thesis by (simp add: rdc_def)
qed

lemma parse_tag_name_plain:
  assumes "s_current sr = Some e" and "e < length (s_heap sr)"
    and "e_key (s_heap sr ! e) = Some v"
    and "\<forall>x\<in>set v. x \<notin> set WHITESPACE \<and> x \<noteq> CHR ''/'' \<and> x \<noteq> NUL"
  shows "xml_parse_tag_name sr = Inr sr"
proof -
  from assms(4) have cs: "cstr v = v"
    unfolding cstr_def by (auto simp: takeWhile_eq_all_conv)
  from assms(4) have ce: "xml_check_empty v = (v, False)"
    unfolding xml_check_empty_def cs by (intro check_empty_loop_plain) auto
  from assms(4) have tw: "takeWhile (\<lambda>c. c \<noteq> NUL \<and> c \<notin> set WHITESPACE) v = v"
    by (auto simp: takeWhile_eq_all_conv)
  have sp: "strcspn_at v 0 WHITESPACE = length v" by (simp only: strcspn_at_def drop_0 tw)
  have el: "(s_heap sr)[e := (s_heap sr ! e)\<lparr>e_key := Some v\<rparr>] = s_heap sr"
    using assms(3) by (metis list_update_id xml_element.surjective xml_element.update_convs(1))
  show ?thesis
    using assms(1,2,3) by (simp add: xml_parse_tag_name_def Let_def ce sp rdc_def el)
qed

lemma parse_loop_tag:
  assumes "s_parser st = Some Content"
  shows "xml_parse_loop st d = then_call (xml_parse_tag st d) (\<lambda>(s, r). xml_parse_loop s r)"
proof (cases "xml_parse_content st d")
  case (Inl x)
  then show ?thesis
    using assms
    by (cases "d = []")
       (simp_all add: xml_parse_tag_def parse_loop_Cons xml_call_parser_def xml_parse_loop_Nil
          xml_parse_content_def)
next
  case (Inr a)
  obtain s1 d1 where a: "a = (s1, d1)" by (cases a)
  from Inr a assms have p1: "d1 = [] \<or> s_parser s1 = Some TagOpening"
    by (auto simp: xml_parse_content_def Let_def split: sum.splits if_splits)
  have l0: "xml_parse_loop st d = xml_parse_loop s1 d1"
  proof (cases "d = []")
    case True
    with Inr a show ?thesis by (simp add: xml_parse_content_def xml_parse_loop_Nil)
  next
    case False
    with Inr a assms show ?thesis
      by (simp add: parse_loop_Cons xml_call_parser_def)
  qed
  show ?thesis
  proof (cases "d1 = []")
    case True
    with Inr a l0 show ?thesis
      by (simp add: xml_parse_tag_def tag_body_Nil xml_parse_loop_Nil)
  next
    case d1: False
    with p1 have o1: "s_parser s1 = Some TagOpening" by simp
    show ?thesis
    proof (cases "xml_parse_tag_opening s1 d1")
      case (Inl x)
      with Inr a l0 d1 o1 show ?thesis
        by (simp add: xml_parse_tag_def parse_loop_Cons xml_call_parser_def)
    next
      case b: (Inr b)
      obtain s2 d2 where bb: "b = (s2, d2)" by (cases b)
      from tag_opening_ok(2)[OF o1 b[unfolded bb]]
      have p2: "d2 = [] \<or> s_parser s2 = Some TagBody" by auto
      have l1: "xml_parse_loop s1 d1 = xml_parse_loop s2 d2"
        using b bb d1 o1 by (simp add: parse_loop_Cons xml_call_parser_def)
      show ?thesis
      proof (cases "d2 = []")
        case True
        with Inr a b bb l0 l1 show ?thesis
          by (simp add: xml_parse_tag_def tag_body_Nil xml_parse_loop_Nil)
      next
        case False
        with p2 have "s_parser s2 = Some TagBody" by simp
        with False have "xml_parse_loop s2 d2 =
            then_call (xml_parse_tag_body s2 d2) (\<lambda>(s, r). xml_parse_loop s r)"
          by (simp add: parse_loop_Cons xml_call_parser_def)
        with Inr a b bb l0 l1 show ?thesis
          by (simp add: xml_parse_tag_def)
      qed
    qed
  qed
qed


text \<open>
  Claim C2, as stated, fails on three documents.  On \<open><a b>\<close> the closing delimiter is
  matched and the key of the element ends up as the buffer \<open>a\<close>, NUL, \<open>b\<close>, whose C string
  is \<open>a\<close>, not the text \<open>a b\<close> between the delimiters.  On \<open><!-y>z-->\<close> the opening \<open><!--\<close> is
  not in the input, yet the tag is taken as a comment and the key gets the opening
  pattern's bytes: it is \<open>!--y>z--\<close>, while the text between the outer delimiters is
  \<open>!-y>z--\<close>.  On \<open><a></b>\<close> the text \<open>/b\<close> of the element-close tag is in no key.
\<close>

theorem C2_key_is_not_the_tag_text:
  "xml_parse (Some ''<a b>'') =
     Some ([\<lparr>e_key = None, e_value = None, e_parent = None, e_children = [1],
              e_attributes = []\<rparr>,
            \<lparr>e_key = Some [CHR ''a'', CHR 0x00, CHR ''b''], e_value = None,
              e_parent = Some 0, e_children = [],
              e_attributes = [\<lparr>a_key = ''b'', a_value = None\<rparr>]\<rparr>], 0) \<and>
   cstr [CHR ''a'', CHR 0x00, CHR ''b''] = ''a'' \<and>
   xml_parse (Some ''<!-y>z-->'') =
     Some ([\<lparr>e_key = None, e_value = None, e_parent = None, e_children = [1],
              e_attributes = []\<rparr>,
            \<lparr>e_key = Some ''!--y>z--'', e_value = None, e_parent = Some 0,
              e_children = [], e_attributes = []\<rparr>], 0) \<and>
   xml_parse (Some ''<a></b>'') =
     Some ([\<lparr>e_key = None, e_value = None, e_parent = None, e_children = [1],
              e_attributes = []\<rparr>,
            \<lparr>e_key = Some ''a'', e_value = None, e_parent = Some 0,
              e_children = [], e_attributes = []\<rparr>], 0)"
  by code_simp

text \<open>
  Claim C2, amended.  After any text \<open>pre\<close> that leaves the parser in content mode, the
  data starts with the whole opening pattern of a tag \<open>t\<close> of the table that is not an
  element-close tag, followed by a byte \<open>c\<close> that continues no opening pattern at that
  position, so that the tag is taken as \<open>t\<close>.  When the calls of the parser functions on
  the tag complete the closing delimiter and leave \<open>r\<close>, the data is the opening pattern,
  some \<open>u\<close>, the closing pattern and \<open>r\<close>; the tag has created the element at the address
  \<open>length (s_heap st)\<close>, and lines 502 to 512 run in a state in which the key of that
  element is the tag's text without its first and its last byte.  For a tag that is not an
  element-open tag this is also the key of the element in the state after the tag.  For
  an element-open tag \<open>xml_parse_tag_name\<close> then cuts the key in place; it is the key of the
  element in the state after the tag when \<open>u\<close> has no whitespace, no \<open>/\<close> and no NUL.  The
  loop of \<open>xml_parse_chunk\<close> goes on with \<open>r\<close>.
\<close>

theorem C2_key_between_delimiters:
  assumes "xml_parse_chunk xml_state_zero (Some pre) = Inr st"
    and "s_parser st = Some Content"
    and "t \<in> set xml_tag_patterns" and "p_type t \<noteq> TAG_ELEMENT_CLOSE"
    and "find_pattern (length (p_open t)) c xml_tag_patterns = None"
    and "xml_parse_tag st (p_open t @ c # y) = Inr (st', r)"
    and "s_parser st' = Some Content"
  shows "\<exists>u sr. c # y = u @ p_close t @ r \<and>
           e_key (s_heap sr ! length (s_heap st)) =
             Some (butlast (tl (p_open t @ u @ p_close t))) \<and>
           s_current sr = Some (length (s_heap st)) \<and>
           xml_tag_finish sr t = Inr st' \<and>
           (p_type t \<noteq> TAG_ELEMENT_OPEN \<longrightarrow>
              e_key (s_heap st' ! length (s_heap st)) =
                Some (butlast (tl (p_open t @ u @ p_close t)))) \<and>
           (p_type t = TAG_ELEMENT_OPEN \<and>
            (\<forall>x\<in>set u. x \<notin> set WHITESPACE \<and> x \<noteq> CHR ''/'' \<and> x \<noteq> NUL) \<longrightarrow>
              e_key (s_heap st' ! length (s_heap st)) = Some u) \<and>
           xml_parse_chunk xml_state_zero (Some (pre @ p_open t @ c # y)) =
             xml_parse_loop st' r"
proof -
  let ?e = "length (s_heap st)"
  let ?d = "p_open t @ c # y"
  from parse_chunk_zero_inv(1)[OF assms(1)] assms(2) have c0: "s_cursor st = 0"
    by (simp add: flags_inv_def)
  note oh = pattern_open_hd[OF assms(3)]
  note pf = pattern_facts[OF assms(3)]
  let ?sA = "st\<lparr>s_parser := Some TagOpening\<rparr>"
  let ?sB = "?sA\<lparr>s_cursor := length (p_open t), s_tag := Some t\<rparr>"
  have dd: "?d = CHR ''<'' # (tl (p_open t) @ c # y)"
    using oh by (metis append_Cons)
  have pc: "xml_parse_content st ?d = Inr (?sA, ?d)"
    unfolding dd using parse_content_tag[of "[]" st "tl (p_open t) @ c # y"] by simp
  have po: "xml_parse_tag_opening ?sA ?d =
              then_call (xml_tag_opened ?sB) (\<lambda>s. Inr (s, c # y))"
    by (rule tag_opening_pattern) (use c0 assms(3,5) in simp_all)
  from assms(6) have "then_call (then_call (xml_tag_opened ?sB) (\<lambda>s. Inr (s, c # y)))
          (\<lambda>(s2, d2). xml_parse_tag_body s2 d2) = Inr (st', r)"
    by (simp add: xml_parse_tag_def pc po)
  then obtain sC where
    op: "xml_tag_opened ?sB = Inr sC"
    and bd: "xml_parse_tag_body sC (c # y) = Inr (st', r)"
    by (cases "xml_tag_opened ?sB") simp_all
  from tag_opened_new[OF op _ assms(4)]
  have C: "s_current sC = Some ?e" "length (s_heap sC) = Suc ?e"
    "e_key (s_heap sC ! ?e) = None" "s_tag sC = Some t" "s_cursor sC = 0"
    "s_length sC = 0" "s_parser sC = Some TagBody"
    by simp_all
  have bi: "body_inv sC t ?e"
    using C assms(3,4) pf(2) by (simp add: body_inv_def)
  have kt: "key_text sC t ?e = tl (p_open t)" using C(3) by (simp add: key_text_def)
  from tag_body_text[OF bi bd] assms(7) C(7)
  obtain u' where u': "c # y = u' @ r" and dn: "body_done sC t ?e u' st'"
    by (auto simp: body_more_def)
  from dn C(5) kt obtain v sr where v: "u' = v @ p_close t"
    and sr: "e_key (s_heap sr ! ?e) = Some (tl (p_open t) @ v @ butlast (p_close t))"
      "s_current sr = Some ?e" "?e < length (s_heap sr)" "xml_tag_finish sr t = Inr st'"
    by (auto simp: body_done_def)
  have one: "p_open t \<noteq> []" using oh by (cases "p_open t") simp_all
  have bt: "butlast (tl (p_open t @ v @ p_close t)) = tl (p_open t) @ v @ butlast (p_close t)"
    using pf(2) one by (simp add: butlast_append)
  have k1: "p_type t \<noteq> TAG_ELEMENT_OPEN \<longrightarrow>
          e_key (s_heap st' ! ?e) = Some (butlast (tl (p_open t @ v @ p_close t)))"
    using tag_finish_other_key[OF _ sr(4)] sr(1) bt by simp
  have k2: "p_type t = TAG_ELEMENT_OPEN \<and>
            (\<forall>x\<in>set v. x \<notin> set WHITESPACE \<and> x \<noteq> CHR ''/'' \<and> x \<noteq> NUL) \<longrightarrow>
              e_key (s_heap st' ! ?e) = Some v"
  proof (intro impI, elim conjE)
    assume ty: "p_type t = TAG_ELEMENT_OPEN"
      and pl: "\<forall>x\<in>set v. x \<notin> set WHITESPACE \<and> x \<noteq> CHR ''/'' \<and> x \<noteq> NUL"
    from assms(3) ty have t: "t = pat_open"
      by (auto simp: xml_tag_patterns_def pat_open_def pat_close_def pat_pi_def pat_type_def
            pat_comment_def pat_cdata_def TAG_ELEMENT_OPEN_def)
    from sr(1) t have key: "e_key (s_heap sr ! ?e) = Some v" by (simp add: pat_open_def)
    from parse_tag_name_plain[OF sr(2,3) key pl]
    have "xml_parse_tag_name sr = Inr sr" .
    with sr(4) ty have "s_heap st' = s_heap sr"
      by (auto simp: xml_tag_finish_def xml_close_element_def xml_close_tag_def
            split: if_splits option.splits)
    with key show "e_key (s_heap st' ! ?e) = Some v" by simp
  qed
  have lp: "xml_parse_chunk xml_state_zero (Some (pre @ ?d)) = xml_parse_loop st' r"
    unfolding parse_chunk_zero_split[OF assms(1)] parse_loop_tag[OF assms(2)] assms(6)
    by simp
  have "c # y = v @ p_close t @ r" using u' v by simp
  with sr bt k1 k2 lp show ?thesis
    by (intro exI[of _ v] exI[of _ sr]) simp
qed

lemma parse_started: "xml_parse_chunk xml_state_zero (Some []) = Inr st_started"
  by code_simp

theorem C2_key_between_delimiters_witness:
  "xml_parse_chunk xml_state_zero (Some []) = Inr st_started \<and>
   length (s_heap st_started) = 1 \<and>
   xml_parse_tag st_started ''<!--a-b-->x'' = Inr (st_comment_done, ''x'') \<and>
   (\<exists>u. ''a-b-->x'' = u @ ''-->'' @ ''x'' \<and>
        e_key (s_heap st_comment_done ! 1) = Some (butlast (tl (''<!--'' @ u @ ''-->'')))) \<and>
   e_key (s_heap st_comment_done ! 1) = Some ''!--a-b--'' \<and>
   xml_parse_tag st_started ''<ab>x'' = Inr (st_ab_open, ''x'') \<and>
   (\<exists>u. ''ab>x'' = u @ ''>'' @ ''x'' \<and> e_key (s_heap st_ab_open ! 1) = Some u) \<and>
   e_key (s_heap st_ab_open ! 1) = Some ''ab''"
proof -
  have h2: "s_parser st_started = Some Content" and len: "length (s_heap st_started) = 1"
    by (simp_all add: st_started_def)
  have m1: "pat_comment \<in> set xml_tag_patterns" and m2: "pat_open \<in> set xml_tag_patterns"
    by (simp_all add: xml_tag_patterns_def)
  have ty1: "p_type pat_comment \<noteq> TAG_ELEMENT_CLOSE" "p_type pat_comment \<noteq> TAG_ELEMENT_OPEN"
    and ty2: "p_type pat_open \<noteq> TAG_ELEMENT_CLOSE" "p_type pat_open = TAG_ELEMENT_OPEN"
    by (simp_all add: pat_comment_def pat_open_def TAG_ELEMENT_CLOSE_def TAG_ELEMENT_OPEN_def)
  have f1: "find_pattern (length (p_open pat_comment)) (CHR ''a'') xml_tag_patterns = None"
    and f2: "find_pattern (length (p_open pat_open)) (CHR ''a'') xml_tag_patterns = None"
    by code_simp+
  have r1: "xml_parse_tag st_started (p_open pat_comment @ CHR ''a'' # ''-b-->x'')
              = Inr (st_comment_done, ''x'')"
    and r2: "xml_parse_tag st_started (p_open pat_open @ CHR ''a'' # ''b>x'')
              = Inr (st_ab_open, ''x'')"
    by code_simp+
  have c1: "s_parser st_comment_done = Some Content"
    and c2: "s_parser st_ab_open = Some Content"
    by (simp_all add: st_comment_done_def st_ab_open_def)
  from C2_key_between_delimiters[OF parse_started h2 m1 ty1(1) f1 r1 c1] ty1(2)
  obtain u where "CHR ''a'' # ''-b-->x'' = u @ p_close pat_comment @ ''x''"
    "e_key (s_heap st_comment_done ! length (s_heap st_started))
       = Some (butlast (tl (p_open pat_comment @ u @ p_close pat_comment)))"
    by blast
  then have w1: "\<exists>u. ''a-b-->x'' = u @ ''-->'' @ ''x'' \<and>
        e_key (s_heap st_comment_done ! 1) = Some (butlast (tl (''<!--'' @ u @ ''-->'')))"
    unfolding len by (intro exI[of _ u]) (simp add: pat_comment_def)
  from C2_key_between_delimiters[OF parse_started h2 m2 ty2(1) f2 r2 c2] ty2(2)
  obtain u sr where u: "CHR ''a'' # ''b>x'' = u @ p_close pat_open @ ''x''"
    and k: "(\<forall>x\<in>set u. x \<notin> set WHITESPACE \<and> x \<noteq> CHR ''/'' \<and> x \<noteq> NUL) \<longrightarrow>
              e_key (s_heap st_ab_open ! length (s_heap st_started)) = Some u"
    by blast
  from u have "u = ''ab''" by (simp add: pat_open_def append_eq_Cons_conv Cons_eq_append_conv)
  with u k have w2: "\<exists>u. ''ab>x'' = u @ ''>'' @ ''x'' \<and> e_key (s_heap st_ab_open ! 1) = Some u"
    unfolding len by (intro exI[of _ "''ab''"]) (simp add: pat_open_def WHITESPACE_def NUL_def)
  have e1: "e_key (s_heap st_comment_done ! 1) = Some ''!--a-b--''"
    and e2: "e_key (s_heap st_ab_open ! 1) = Some ''ab''"
    by (simp_all add: st_comment_done_def st_ab_open_def)
  from r1 r2 have r1': "xml_parse_tag st_started ''<!--a-b-->x'' = Inr (st_comment_done, ''x'')"
    and r2': "xml_parse_tag st_started ''<ab>x'' = Inr (st_ab_open, ''x'')"
    by (simp_all add: pat_comment_def pat_open_def)
  from parse_started len r1' w1 e1 r2' w2 e2 show ?thesis by (intro conjI)
qed

subsection \<open>Text content of a leaf element\<close>

lemma value_append_fresh:
  assumes "s_length st = 0" and "s_current st = Some e" and "e < length (s_heap st)"
    and "t \<noteq> []"
  shows "xml_value_append st t =
     Inr (st\<lparr>s_heap := (s_heap st)[e := (s_heap st ! e)
                  \<lparr>e_children := e_children (s_heap st ! e) @ [length (s_heap st)]\<rparr>]
                @ [(new_element (Some e))\<lparr>e_value := Some t\<rparr>],
             s_current := Some (length (s_heap st)), s_length := length t\<rparr>)"
  using assms
  by (simp add: xml_value_append_def xml_element_create_def Let_def xml_string_append_def
        new_element_def nth_append list_update_append)

lemma run_text_close:
  assumes "s_parser s2 = Some Content" and "s_cursor s2 = 0" and "s_length s2 = 0"
    and "s_current s2 = Some e" and "e < length (s_heap s2)"
    and "t \<noteq> []" and "CHR ''<'' \<notin> set t"
    and "c \<noteq> CHR ''-''" and "c \<noteq> CHR ''[''" and "CHR ''>'' \<notin> set (c # m)"
    and "xml_parse_loop s2 (t @ ''</'' @ c # m @ ''>'') = Inr s4"
  shows "s_heap s4 = (s_heap s2)[e := (s_heap s2 ! e)
                  \<lparr>e_children := e_children (s_heap s2 ! e) @ [length (s_heap s2)]\<rparr>]
                @ [(new_element (Some e))\<lparr>e_value := Some t\<rparr>] \<and>
         s_current s4 = e_parent (s_heap s2 ! e) \<and> s_parser s4 = Some Content"
proof -
  let ?L = "length (s_heap s2)"
  let ?h = "(s_heap s2)[e := (s_heap s2 ! e)
                  \<lparr>e_children := e_children (s_heap s2 ! e) @ [?L]\<rparr>]
                @ [(new_element (Some e))\<lparr>e_value := Some t\<rparr>]"
  let ?sV = "s2\<lparr>s_heap := ?h, s_current := Some ?L, s_length := length t\<rparr>"
  let ?d1 = "CHR ''<'' # CHR ''/'' # c # m @ ''>''"
  let ?sA = "?sV\<lparr>s_parser := Some TagOpening\<rparr>"
  let ?sB = "?sA\<lparr>s_cursor := 2, s_tag := Some pat_close\<rparr>"
  let ?sC = "?sB\<lparr>s_current := Some e, s_length := 0, s_cursor := 0,
                  s_parser := Some TagBody\<rparr>"
  let ?s4 = "xml_close_tag (?sC\<lparr>s_current := e_parent (s_heap s2 ! e)\<rparr>)"
  have va: "xml_value_append s2 t = Inr ?sV"
    by (rule value_append_fresh) fact+
  have pc: "xml_parse_content s2 (t @ ?d1) = Inr (?sA, ?d1)"
    unfolding parse_content_tag[OF assms(7)] va using assms(6) by simp
  have ne1: "t @ ?d1 \<noteq> []" and ne2: "?d1 \<noteq> []" and ne3: "(c # m) @ CHR ''>'' # [] \<noteq> []"
    by simp_all
  have 1: "xml_parse_loop s2 (t @ ?d1) = xml_parse_loop ?sA ?d1"
    unfolding parse_loop_Cons[OF ne1, of s2] xml_call_parser_def assms(1) using pc by simp
  have hL: "?h ! ?L = (new_element (Some e))\<lparr>e_value := Some t\<rparr>"
    by (simp add: nth_append)
  have he: "e_parent (?h ! e) = e_parent (s_heap s2 ! e)" and el: "e < length ?h"
    using assms(5) by (simp_all add: nth_append)
  have oc: "xml_tag_opened ?sB = Inr ?sC"
    using assms(6) hL
    by (simp add: xml_tag_opened_def xml_close_element_def pat_close_def new_element_def
          Let_def TAG_ELEMENT_CLOSE_def)
  have to: "xml_parse_tag_opening ?sA ?d1 = Inr (?sC, (c # m) @ CHR ''>'' # [])"
    using tag_opening_close[of ?sA c "m @ ''>''"] assms(2,8,9) oc by simp
  have 2: "xml_parse_loop ?sA ?d1 = xml_parse_loop ?sC ((c # m) @ CHR ''>'' # [])"
    unfolding parse_loop_Cons[OF ne2, of ?sA] xml_call_parser_def using to by simp
  have pcl: "rdc (p_close pat_close) 0 = CHR ''>''"
    by (simp add: pat_close_def rdc_def)
  let ?P = "\<lambda>x. x \<noteq> rdc (p_close pat_close) 0"
  have tw: "takeWhile ?P ((c # m) @ CHR ''>'' # []) = c # m"
    and dw: "dropWhile ?P ((c # m) @ CHR ''>'' # []) = CHR ''>'' # []"
    unfolding pcl
    using assms(10) takeWhile_neq_append[of "CHR ''>''" "c # m" "CHR ''>'' # []"]
      dropWhile_neq_append[of "CHR ''>''" "c # m" "[]"] by simp_all
  have len: "length (takeWhile ?P ((c # m) @ CHR ''>'' # [])) < length ((c # m) @ CHR ''>'' # [])"
    unfolding tw by simp
  have tC: "s_tag ?sC = Some pat_close" "s_cursor ?sC = 0" "s_current ?sC = Some e"
    "e < length (s_heap ?sC)"
    using el by simp_all
  have tm: "xml_tag_match ?sC pat_close (c # m) =
              Inr (xml_close_tag (?sC\<lparr>s_current := e_parent (s_heap ?sC ! e)\<rparr>), True)"
    by (rule tag_close_complete[OF tC])
  have fb: "xml_parse_tag_body ?sC ((c # m) @ CHR ''>'' # []) =
              Inr (xml_close_tag (?sC\<lparr>s_current := e_parent (s_heap ?sC ! e)\<rparr>), [])"
    unfolding tag_body_found[OF tC(1,2) len, unfolded tw dw tm] by simp
  have 3: "xml_parse_loop ?sC ((c # m) @ CHR ''>'' # []) =
              Inr (xml_close_tag (?sC\<lparr>s_current := e_parent (s_heap ?sC ! e)\<rparr>))"
    unfolding parse_loop_Cons[OF ne3, of ?sC] xml_call_parser_def using fb
    by (simp add: xml_parse_loop_Nil)
  from assms(11) have "xml_parse_loop s2 (t @ ?d1) = Inr s4" by simp
  with 1 2 3 have "s4 = xml_close_tag (?sC\<lparr>s_current := e_parent (s_heap ?sC ! e)\<rparr>)"
    by simp
  then show ?thesis using he by (simp add: xml_close_tag_def)
qed


lemma check_empty_loop_spec:
  assumes "n \<le> length b"
  shows "snd (xml_check_empty_loop b n) =
           (case dropWhile (\<lambda>c. c \<in> set WHITESPACE) (rev (take n b)) of
              [] \<Rightarrow> False
            | x # _ \<Rightarrow> x = CHR ''/'')"
  using assms
proof (induction n)
  case 0
  then show ?case by simp
next
  case (Suc p)
  then have p: "p < length b" by simp
  then have tk: "take (Suc p) b = take p b @ [b ! p]" by (simp add: take_Suc_conv_app_nth)
  from Suc p show ?case by (simp add: tk rdc_def)
qed

lemma check_empty_self_closing: "snd (xml_check_empty k) = self_closing k"
proof -
  have le: "length (cstr k) \<le> length k"
    unfolding cstr_def by (rule length_takeWhile_le)
  have "take (length (cstr k)) k = cstr k"
    unfolding cstr_def by (metis append_eq_conv_conj takeWhile_dropWhile_id)
  with check_empty_loop_spec[OF le] show ?thesis
    by (simp add: xml_check_empty_def self_closing_def)
qed

lemma content_leaf:
  assumes "e < length h" and "e_children (h ! e) = [x]" and "x < length h"
    and "e_value (h ! x) = Some t" and "t \<noteq> []"
  shows "xml_content h (Some e) = Some (Inr (Some t))"
proof -
  have l: "xml_content_len h e = Some (Inr (length t))"
    using assms
    by (simp add: xml_content_len_def xml_content_len_rec.simps[of h "[x]"]
          xml_content_len_rec.simps[of h "[]"])
  have c: "xml_content_cpy h e = Some (Inr t)"
    using assms
    by (simp add: xml_content_cpy_def xml_content_cpy_rec.simps[of h "[x]"]
          xml_content_cpy_rec.simps[of h "[]"])
  from assms(5) have "\<not> length t < 1" by (cases t) simp_all
  with l c show ?thesis by (simp add: xml_content_def)
qed

lemma run_leaf:
  assumes "flags_inv st" and "len_inv st" and "wf_tree (s_heap st) (s_current st)"
    and "s_parser st = Some Content"
    and "c \<noteq> CHR ''/''" "c \<noteq> CHR ''?''" "c \<noteq> CHR ''!''"
    and "CHR ''>'' \<notin> set (c # k)" and "\<not> self_closing (c # k)"
    and "t \<noteq> []" and "CHR ''<'' \<notin> set t"
    and "c2 \<noteq> CHR ''-''" and "c2 \<noteq> CHR ''[''" and "CHR ''>'' \<notin> set (c2 # m)"
    and "xml_parse_loop st ((CHR ''<'' # (c # k) @ ''>'') @ (t @ ''</'' @ c2 # m @ ''>'') @ r)
           = Inr st'"
  shows "length (s_heap st) < length (s_heap st') \<and> Suc (length (s_heap st)) < length (s_heap st') \<and>
         e_children (s_heap st' ! length (s_heap st)) = [Suc (length (s_heap st))] \<and>
         e_value (s_heap st' ! Suc (length (s_heap st))) = Some t"
proof -
  let ?e = "length (s_heap st)"
  from parse_loop_split[OF assms(2,15)] obtain s2 where
    a: "xml_parse_loop st (CHR ''<'' # (c # k) @ ''>'') = Inr s2"
    and b: "xml_parse_loop s2 ((t @ ''</'' @ c2 # m @ ''>'') @ r) = Inr st'"
    by blast
  from assms(1,4) have fl: "s_cursor st = 0" "\<not> s_empty st"
    by (simp_all add: flags_inv_def)
  from a have a': "xml_parse_loop st (CHR ''<'' # (c # k) @ CHR ''>'' # []) = Inr s2" by simp
  from assms(9) have em: "\<not> snd (xml_check_empty (c # k))"
    by (simp add: check_empty_self_closing)
  from run_open_tag[OF assms(4) fl assms(3,5,6,7,8) a'] em
  obtain p b1 as where
    s2: "s_parser s2 = Some Content" "s_cursor s2 = 0" "s_length s2 = 0"
      "length (s_heap s2) = Suc ?e"
      "s_heap s2 ! ?e = \<lparr>e_key = Some b1, e_value = None, e_parent = p, e_children = [],
              e_attributes = as\<rparr>"
      "s_current s2 = Some ?e" "case p of None \<Rightarrow> True | Some q \<Rightarrow> q < ?e"
      "\<forall>i<?e. e_parent (s_heap s2 ! i) = e_parent (s_heap st ! i)"
    by (auto simp: xml_parse_loop_Nil)
  from assms(4) have pn: "s_parser st \<noteq> None" by simp
  from parse_loop_ok[OF assms(2) pn a] have li2: "len_inv s2" by simp
  from parse_loop_split[OF li2 b] obtain s4 where
    c: "xml_parse_loop s2 (t @ ''</'' @ c2 # m @ ''>'') = Inr s4"
    and d: "xml_parse_loop s4 r = Inr st'"
    by blast
  have el: "?e < length (s_heap s2)" using s2(4) by simp
  from run_text_close[OF s2(1,2,3,6) el assms(10,11,12,13,14) c]
  have s4: "s_heap s4 = (s_heap s2)[?e := (s_heap s2 ! ?e)
                  \<lparr>e_children := e_children (s_heap s2 ! ?e) @ [length (s_heap s2)]\<rparr>]
                @ [(new_element (Some ?e))\<lparr>e_value := Some t\<rparr>]"
    and c4: "s_current s4 = e_parent (s_heap s2 ! ?e)"
    by simp_all
  have l4: "length (s_heap s4) = Suc (Suc ?e)" using s4 s2(4) by simp
  have h4e: "s_heap s4 ! ?e = (s_heap s2 ! ?e)\<lparr>e_children := [Suc ?e]\<rparr>"
    using s4 s2(4,5) by (simp add: nth_append)
  have h4t: "s_heap s4 ! Suc ?e = (new_element (Some ?e))\<lparr>e_value := Some t\<rparr>"
    using s4 s2(4) by (simp add: nth_append)
  have h4i: "s_heap s4 ! i = s_heap s2 ! i" if "i < ?e" for i
    using that s4 s2(4) by (simp add: nth_append)
  from s2(7) have pe: "p \<noteq> Some ?e" "p \<noteq> Some (Suc ?e)" by (cases p; auto)+
  have par: "case e_parent (s_heap s4 ! i) of None \<Rightarrow> True | Some q \<Rightarrow> q \<notin> {?e, Suc ?e}"
    if "i < ?e" for i
  proof -
    from that assms(3) have "case e_parent (s_heap st ! i) of None \<Rightarrow> True | Some q \<Rightarrow> q < ?e"
      by (simp add: wf_tree_def)
    with s2(8) that h4i[OF that] show ?thesis by (auto split: option.splits)
  qed
  have "frozen {?e, Suc ?e} (s_heap s4) (s_heap s4) (s_current s4)"
    unfolding frozen_def
  proof (intro conjI allI impI ballI)
    show "case s_current s4 of None \<Rightarrow> True | Some x \<Rightarrow> x \<notin> {?e, Suc ?e}"
      using c4 s2(5) pe by (auto split: option.splits)
  next
    fix i assume "i < length (s_heap s4)" "i \<notin> {?e, Suc ?e}"
    with l4 have "i < ?e" by auto
    then show "case e_parent (s_heap s4 ! i) of None \<Rightarrow> True | Some q \<Rightarrow> q \<notin> {?e, Suc ?e}"
      by (rule par)
  next
    fix i assume "i \<in> {?e, Suc ?e}"
    with l4 show "i < length (s_heap s4)" by auto
  qed simp
  from tree_steps_frozen[OF parse_loop_steps[OF d] this]
  have fr: "frozen {?e, Suc ?e} (s_heap s4) (s_heap st') (s_current st')" .
  then have k: "?e < length (s_heap st')" "s_heap st' ! ?e = s_heap s4 ! ?e"
    "Suc ?e < length (s_heap st')" "s_heap st' ! Suc ?e = s_heap s4 ! Suc ?e"
    by (auto simp: frozen_def)
  from k h4e h4t show ?thesis by (simp add: new_element_def)
qed


text \<open>
  Claim C7, as stated, fails on three well-formed documents.  In \<open><a x='1>2'>t</a>\<close> the
  tag ends for the parser at the \<open>>\<close> inside the attribute value, so the rest of the value
  becomes text of the element and \<open>xml_content\<close> returns \<open>2'>t\<close> where the text between the
  tags is \<open>t\<close>.  For \<open><a></a>\<close>, where that text is empty, \<open>xml_content\<close> returns null.  In
  \<open><a><![CDATA[x]]></a>\<close> the section is stored as the key of a child element, not as
  text, and \<open>xml_content\<close> returns null.
\<close>

theorem C7_content_is_not_the_literal_text:
  "xml_parse (Some ''<a x='1>2'>t</a>'') = Some (doc_gt, 0) \<and>
   xml_find doc_gt 0 (Some ''a'') = Inr (Some 1) \<and>
   xml_content doc_gt (Some 1) = Some (Inr (Some [CHR ''2'', CHR 0x27, CHR ''>'', CHR ''t''])) \<and>
   xml_parse (Some ''<a></a>'') = Some (doc_empty_a, 0) \<and>
   xml_content doc_empty_a (Some 1) = Some (Inr None) \<and>
   xml_parse (Some ''<a><![CDATA[x]]></a>'') = Some (doc_cdata_a, 0) \<and>
   xml_content doc_cdata_a (Some 1) = Some (Inr None)"
  by code_simp

text \<open>
  Claim C7, amended.  After any text \<open>pre\<close> that leaves the parser in content mode comes
  an element: the tag \<open><\<close>, \<open>c\<close>, \<open>k\<close>, \<open>>\<close> (its first byte \<open>c\<close> is not one that opens another
  kind of tag, there is no \<open>>\<close> in \<open>c\<close>, \<open>k\<close>, also not inside an attribute value, and the
  tag is not self-closing), the text \<open>t\<close>, which is not empty and has no \<open><\<close> (and no NUL, being part of a C
  string), and a
  close tag \<open></\<close>, \<open>c2\<close>, \<open>m\<close>, \<open>>\<close> (whose first byte \<open>c2\<close> is not \<open>-\<close> or \<open>[\<close>); then any
  text \<open>r\<close>; the whole is parsed in one chunk without an error.  The open tag creates the
  element at the address \<open>length (s_heap st)\<close>, and \<open>xml_content\<close> on that element in the
  final tree returns exactly \<open>t\<close>, byte for byte: its only child is the text element that
  holds \<open>t\<close>.  So \<open>&amp;\<close> in \<open>t\<close> is \<open>&amp;\<close> in the result.
\<close>

theorem C7_leaf_content_is_its_text:
  assumes "xml_parse_chunk xml_state_zero (Some pre) = Inr st"
    and "s_parser st = Some Content"
    and "c \<noteq> CHR ''/''" and "c \<noteq> CHR ''?''" and "c \<noteq> CHR ''!''"
    and "CHR ''>'' \<notin> set (c # k)" and "\<not> self_closing (c # k)"
    and "t \<noteq> []" and "CHR ''<'' \<notin> set t" and "NUL \<notin> set t"
    and "c2 \<noteq> CHR ''-''" and "c2 \<noteq> CHR ''[''" and "CHR ''>'' \<notin> set (c2 # m)"
    and "xml_parse_chunk xml_state_zero
           (Some (pre @ (CHR ''<'' # (c # k) @ ''>'') @ (t @ ''</'' @ c2 # m @ ''>'') @ r))
           = Inr st'"
  shows "xml_content (s_heap st') (Some (length (s_heap st))) = Some (Inr (Some t)) \<and>
         length (s_heap st) < length (s_heap st') \<and>
         e_children (s_heap st' ! length (s_heap st)) = [Suc (length (s_heap st))] \<and>
         e_value (s_heap st' ! Suc (length (s_heap st))) = Some t"
proof -
  note inv = parse_chunk_zero_inv[OF assms(1)]
  from assms(14) have l: "xml_parse_loop st
      ((CHR ''<'' # (c # k) @ ''>'') @ (t @ ''</'' @ c2 # m @ ''>'') @ r) = Inr st'"
    by (simp only: parse_chunk_zero_split[OF assms(1)])
  from run_leaf[OF inv(1,2,3) assms(2,3,4,5,6,7,8,9,11,12,13) l]
  have k: "length (s_heap st) < length (s_heap st')"
    "Suc (length (s_heap st)) < length (s_heap st')"
    "e_children (s_heap st' ! length (s_heap st)) = [Suc (length (s_heap st))]"
    "e_value (s_heap st' ! Suc (length (s_heap st))) = Some t"
    by simp_all
  from content_leaf[OF k(1,3,2,4) assms(8)] k show ?thesis by simp
qed

theorem C7_leaf_content_is_its_text_witness:
  "xml_parse_chunk xml_state_zero (Some []) = Inr st_started \<and>
   length (s_heap st_started) = 1 \<and>
   xml_parse_chunk xml_state_zero (Some ''<a>x &amp; y</a>'') = Inr st_amp \<and>
   \<not> self_closing ''a'' \<and>
   xml_content (s_heap st_amp) (Some 1) = Some (Inr (Some ''x &amp; y'')) \<and>
   e_children (s_heap st_amp ! 1) = [2] \<and>
   e_value (s_heap st_amp ! 2) = Some ''x &amp; y''"
proof -
  have h1: "xml_parse_chunk xml_state_zero (Some []) = Inr st_started"
    by code_simp
  have h2: "s_parser st_started = Some Content" and len: "length (s_heap st_started) = 1"
    by (simp_all add: st_started_def)
  have n1: "CHR ''>'' \<notin> set (CHR ''a'' # [])" and n2: "CHR ''>'' \<notin> set (CHR ''a'' # [])"
    and t1: "''x &amp; y'' \<noteq> []" and t2: "CHR ''<'' \<notin> set ''x &amp; y''"
    and t3: "NUL \<notin> set ''x &amp; y''"
    by (simp_all add: NUL_def)
  have sc: "\<not> self_closing (CHR ''a'' # [])" by code_simp
  have run: "xml_parse_chunk xml_state_zero
           (Some ([] @ (CHR ''<'' # (CHR ''a'' # []) @ ''>'')
              @ (''x &amp; y'' @ ''</'' @ CHR ''a'' # [] @ ''>'') @ [])) = Inr st_amp"
    by code_simp
  from C7_leaf_content_is_its_text[OF h1 h2 _ _ _ n1 sc t1 t2 t3 _ _ n2 run]
  have "xml_content (s_heap st_amp) (Some (length (s_heap st_started)))
          = Some (Inr (Some ''x &amp; y'')) \<and>
        e_children (s_heap st_amp ! length (s_heap st_started))
          = [Suc (length (s_heap st_started))] \<and>
        e_value (s_heap st_amp ! Suc (length (s_heap st_started))) = Some ''x &amp; y''"
    by simp
  then have r: "xml_content (s_heap st_amp) (Some 1) = Some (Inr (Some ''x &amp; y''))"
    "e_children (s_heap st_amp ! 1) = [2]"
    "e_value (s_heap st_amp ! 2) = Some ''x &amp; y''"
    unfolding len by (simp_all add: numeral_2_eq_2)
  from run have run': "xml_parse_chunk xml_state_zero (Some ''<a>x &amp; y</a>'') = Inr st_amp"
    by simp
  from sc have sc': "\<not> self_closing ''a''" by simp
  from h1 len run' sc' r show ?thesis by (intro conjI)
qed

end
